theory Spec2Isabelle
  imports Complex_Main "HOL-Library.List_Lexorder" "HOL-Library.Char_ord"
begin

section \<open>Data model\<close>

text \<open>
  A node is the root token \<^verbatim>\<open>"C"\<close> or an integer index into the candidate array
  (\<^verbatim>\<open>nodes = [root] + list(range(num_nodes))\<close>). A position is a one-dimensional numpy
  array of finite doubles, modelled as the list of the reals its components denote. An
  edge is the triple \<^verbatim>\<open>(node1, node2, edge_weight)\<close> appended to \<^verbatim>\<open>edges\<close>.
\<close>

datatype node = C | Idx nat

type_synonym position = "real list"

type_synonym edge = "node \<times> node \<times> real"

text \<open>
  The exceptions the function can raise before the solver is called: numpy's broadcasting
  failure (ValueError), a call of \<^verbatim>\<open>np.hypot\<close> with other than two coordinate arguments
  (TypeError), and a missing dictionary key (KeyError).
\<close>

datatype error = ValueError | TypeError | KeyError

definition bind_err :: "error + 'a \<Rightarrow> ('a \<Rightarrow> error + 'b) \<Rightarrow> error + 'b" where
  "bind_err r f = (case r of Inl e \<Rightarrow> Inl e | Inr x \<Rightarrow> f x)"

definition lookup :: "('k \<rightharpoonup> 'v) \<Rightarrow> 'k \<Rightarrow> error + 'v" where
  "lookup d key = (case d key of None \<Rightarrow> Inl KeyError | Some v \<Rightarrow> Inr v)"

section \<open>Distance oracle\<close>

text \<open>
  The two operations of numpy on doubles that the program uses, \<^verbatim>\<open>np.subtract\<close> (behind
  \<^verbatim>\<open>a - b\<close>) and \<^verbatim>\<open>np.hypot\<close>, on two scalars. Each returns a double, that is the rounded
  value of the exact result; how it rounds is left open, so the operations are a parameter
  of everything that computes a distance. Comparisons of doubles are exact. Overflow to
  infinity and NaN are not represented.
\<close>

record numpy =
  subtract :: "real \<Rightarrow> real \<Rightarrow> real"
  hypot :: "real \<Rightarrow> real \<Rightarrow> real"

text \<open>The operations without rounding.\<close>

definition exact :: numpy where
  "exact = \<lparr> subtract = (\<lambda>x y. x - y), hypot = (\<lambda>x y. sqrt (x\<^sup>2 + y\<^sup>2)) \<rparr>"

text \<open>
  \<^verbatim>\<open>a - b\<close> on one-dimensional arrays: elementwise when the lengths agree, broadcast when
  one side has a single component, ValueError otherwise.
\<close>

definition np_sub :: "numpy \<Rightarrow> position \<Rightarrow> position \<Rightarrow> error + position" where
  "np_sub np a b =
     (if length a = length b then Inr (map2 (subtract np) a b)
      else if length a = 1 then Inr (map (\<lambda>y. subtract np (hd a) y) b)
      else if length b = 1 then Inr (map (\<lambda>x. subtract np x (hd b)) a)
      else Inl ValueError)"

text \<open>
  \<^verbatim>\<open>np.hypot(*d)\<close>: exactly two unpacked components give the hypotenuse; none or one is a
  missing argument, a third lands in the \<^verbatim>\<open>out\<close> parameter, which refuses a scalar, and
  more are too many arguments: TypeError each time.
\<close>

definition np_hypot :: "numpy \<Rightarrow> position \<Rightarrow> error + real" where
  "np_hypot np d = (case d of [x, y] \<Rightarrow> Inr (hypot np x y) | _ \<Rightarrow> Inl TypeError)"

definition euclid :: "numpy \<Rightarrow> position \<Rightarrow> position \<Rightarrow> error + real" where
  "euclid np a b = bind_err (np_sub np a b) (np_hypot np)"

section \<open>Candidate graph builder\<close>

definition root :: node where
  "root = C"

definition nodes_of :: "nat \<Rightarrow> node list" where
  "nodes_of num_nodes = root # map Idx [0..<num_nodes]"

definition node_positions :: "position \<Rightarrow> position list \<Rightarrow> (node \<rightharpoonup> position)" where
  "node_positions c_coords coords =
     (\<lambda>n. case n of C \<Rightarrow> Some c_coords
               | Idx i \<Rightarrow> if i < length coords then Some (coords ! i) else None)"

fun mapM_err :: "('a \<Rightarrow> error + 'b) \<Rightarrow> 'a list \<Rightarrow> error + 'b list" where
  "mapM_err f [] = Inr []"
| "mapM_err f (x # xs) =
     (case f x of Inl e \<Rightarrow> Inl e
      | Inr y \<Rightarrow> (case mapM_err f xs of Inl e \<Rightarrow> Inl e | Inr ys \<Rightarrow> Inr (y # ys)))"

text \<open>
  \<^verbatim>\<open>{node: _euclid(node_positions[node], node_positions[root]) for node in nodes}\<close>: the
  entries are computed in the order of \<^verbatim>\<open>nodes\<close>; a later entry for a key replaces an
  earlier one.
\<close>

definition distance_entry :: "numpy \<Rightarrow> (node \<rightharpoonup> position) \<Rightarrow> node \<Rightarrow> error + (node \<times> real)" where
  "distance_entry np pos n =
     bind_err (lookup pos n) (\<lambda>a.
     bind_err (lookup pos root) (\<lambda>b.
     bind_err (euclid np a b) (\<lambda>d. Inr (n, d))))"

definition distances_to_root ::
  "numpy \<Rightarrow> (node \<rightharpoonup> position) \<Rightarrow> node list \<Rightarrow> error + (node \<rightharpoonup> real)" where
  "distances_to_root np pos nodes =
     bind_err (mapM_err (distance_entry np pos) nodes) (\<lambda>kvs. Inr (map_of (rev kvs)))"

text \<open>
  The test of line 52,
  \<^verbatim>\<open>node1 == root or node2 == root or edge_weight <= max(d[node1], d[node2])\<close>;
  \<^verbatim>\<open>or\<close> short-circuits, so the dictionary is read only when neither endpoint is the root.
\<close>

definition keep_edge :: "(node \<rightharpoonup> real) \<Rightarrow> node \<Rightarrow> node \<Rightarrow> real \<Rightarrow> error + bool" where
  "keep_edge dtr node1 node2 edge_weight =
     (if node1 = root \<or> node2 = root then Inr True
      else bind_err (lookup dtr node1) (\<lambda>d1.
           bind_err (lookup dtr node2) (\<lambda>d2.
           Inr (edge_weight \<le> max d1 d2))))"

text \<open>The body of the inner loop (lines 51 to 53), on the list \<^verbatim>\<open>edges\<close> built so far.\<close>

definition edge_step ::
  "numpy \<Rightarrow> (node \<rightharpoonup> position) \<Rightarrow> (node \<rightharpoonup> real) \<Rightarrow> node \<Rightarrow> node \<Rightarrow> edge list \<Rightarrow> error + edge list" where
  "edge_step np pos dtr node1 node2 edges =
     bind_err (lookup pos node1) (\<lambda>a.
     bind_err (lookup pos node2) (\<lambda>b.
     bind_err (euclid np a b) (\<lambda>edge_weight.
     bind_err (keep_edge dtr node1 node2 edge_weight) (\<lambda>kept.
     Inr (if kept then edges @ [(node1, node2, edge_weight)] else edges)))))"

text \<open>\<^verbatim>\<open>for node2 in nodes[i + 1:]\<close>.\<close>

fun inner_loop ::
  "numpy \<Rightarrow> (node \<rightharpoonup> position) \<Rightarrow> (node \<rightharpoonup> real) \<Rightarrow> node \<Rightarrow> node list \<Rightarrow> edge list \<Rightarrow> error + edge list" where
  "inner_loop np pos dtr node1 [] edges = Inr edges"
| "inner_loop np pos dtr node1 (node2 # rest) edges =
     (case edge_step np pos dtr node1 node2 edges of
        Inl e \<Rightarrow> Inl e
      | Inr edges' \<Rightarrow> inner_loop np pos dtr node1 rest edges')"

text \<open>\<^verbatim>\<open>for i, node1 in enumerate(nodes)\<close>: the inner loop runs over the nodes after
  \<^verbatim>\<open>node1\<close>.\<close>

fun outer_loop ::
  "numpy \<Rightarrow> (node \<rightharpoonup> position) \<Rightarrow> (node \<rightharpoonup> real) \<Rightarrow> node list \<Rightarrow> edge list \<Rightarrow> error + edge list" where
  "outer_loop np pos dtr [] edges = Inr edges"
| "outer_loop np pos dtr (node1 # rest) edges =
     (case inner_loop np pos dtr node1 rest edges of
        Inl e \<Rightarrow> Inl e
      | Inr edges' \<Rightarrow> outer_loop np pos dtr rest edges')"

text \<open>Lines 41 to 53: positions, distances to the root, pruned edge list.\<close>

definition pruned_edges :: "numpy \<Rightarrow> position list \<Rightarrow> position \<Rightarrow> error + edge list" where
  "pruned_edges np coords c_coords =
     (let nodes = nodes_of (length coords);
          pos = node_positions c_coords coords
      in bind_err (distances_to_root np pos nodes) (\<lambda>dtr. outer_loop np pos dtr nodes []))"

section \<open>Node labels as text\<close>

text \<open>
  \<^verbatim>\<open>str\<close> of a node: the root is the string \<^verbatim>\<open>"C"\<close>, an index is its decimal numeral.
  The labels appear in variable and constraint names and, through \<^verbatim>\<open>key=str\<close>, in the
  canonical edge key of the decoder.
\<close>

definition digit_char :: "nat \<Rightarrow> char" where
  "digit_char d = ''0123456789'' ! d"

fun str_nat :: "nat \<Rightarrow> string" where
  "str_nat n = (if n < 10 then [digit_char n] else str_nat (n div 10) @ [digit_char (n mod 10)])"

definition str_int :: "int \<Rightarrow> string" where
  "str_int i = (if i < 0 then CHR ''-'' # str_nat (nat (- i)) else str_nat (nat i))"

fun str_node :: "node \<Rightarrow> string" where
  "str_node C = ''C''"
| "str_node (Idx i) = str_nat i"

section \<open>Model encoder\<close>

text \<open>
  The Gurobi model as the data handed to the solver. A variable is identified with the
  dictionary key it is stored under (\<^verbatim>\<open>arc_variables[(a, b)]\<close>, \<^verbatim>\<open>flow_variables[(a, b)]\<close>,
  \<^verbatim>\<open>node_variables[n]\<close>); the pruned edge list writes every key once. Linear expressions
  keep the shape in which the source builds them.
\<close>

datatype var = ArcVar node node | FlowVar node node | NodeVar node

datatype vdomain = Binary | Continuous real real

type_synonym vdecl = "var \<times> vdomain \<times> string"

datatype lin = Var var | Const real | Scale real lin | Add lin lin | Sub lin lin
  | Quicksum "lin list"

datatype constr = LE lin lin string | EQ lin lin string

record model =
  variables :: "vdecl list"
  constraints :: "constr list"
  objective :: lin
  OutputFlag :: int
  MIPGap :: real
  TimeLimit :: real
  VarBranch :: int
  BranchPriority :: "(var \<times> int) list"

text \<open>The keys of \<^verbatim>\<open>arc_variables\<close> (and of \<^verbatim>\<open>flow_variables\<close>) in insertion order.\<close>

definition arc_keys :: "edge list \<Rightarrow> (node \<times> node) list" where
  "arc_keys edges = concat (map (\<lambda>(node1, node2, _). [(node1, node2), (node2, node1)]) edges)"

definition pair_name :: "string \<Rightarrow> node \<Rightarrow> node \<Rightarrow> string" where
  "pair_name prefix a b = prefix @ str_node a @ ''_'' @ str_node b"

text \<open>Lines 70 to 73: the four variables of an edge.\<close>

definition edge_vars :: "int \<Rightarrow> edge \<Rightarrow> vdecl list" where
  "edge_vars k = (\<lambda>(node1, node2, _).
     [(ArcVar node1 node2, Binary, pair_name ''arc_'' node1 node2),
      (ArcVar node2 node1, Binary, pair_name ''arc_'' node2 node1),
      (FlowVar node1 node2, Continuous 0 (of_int (k - 1)), pair_name ''flow_'' node1 node2),
      (FlowVar node2 node1, Continuous 0 (of_int (k - 1)), pair_name ''flow_'' node2 node1)])"

text \<open>Lines 76 to 79: orientation exclusivity and the two flow capacity constraints.\<close>

definition edge_constrs :: "int \<Rightarrow> edge \<Rightarrow> constr list" where
  "edge_constrs k = (\<lambda>(node1, node2, _).
     [LE (Add (Var (ArcVar node1 node2)) (Var (ArcVar node2 node1))) (Const 1)
         (pair_name ''one_dir_'' node1 node2),
      LE (Var (FlowVar node1 node2)) (Scale (of_int (k - 1)) (Var (ArcVar node1 node2)))
         (pair_name ''flow_cap_'' node1 node2),
      LE (Var (FlowVar node2 node1)) (Scale (of_int (k - 1)) (Var (ArcVar node2 node1)))
         (pair_name ''flow_cap_'' node2 node1)])"

text \<open>Line 81: \<^verbatim>\<open>model.addVars(nodes, vtype=GRB.BINARY, name="node")\<close>.\<close>

definition node_vars :: "node list \<Rightarrow> vdecl list" where
  "node_vars nodes = map (\<lambda>n. (NodeVar n, Binary, ''node['' @ str_node n @ '']'')) nodes"

text \<open>Lines 85 and 86.\<close>

definition objective_of :: "edge list \<Rightarrow> lin" where
  "objective_of edges =
     Quicksum (map (\<lambda>(node1, node2, weight).
       Scale weight (Add (Var (ArcVar node1 node2)) (Var (ArcVar node2 node1)))) edges)"

text \<open>Lines 94 to 97: an arc needs both endpoints of its edge.\<close>

definition endpoint_constrs :: "edge \<Rightarrow> constr list" where
  "endpoint_constrs = (\<lambda>(node1, node2, _).
     concat (map (\<lambda>(a, b).
       [LE (Var (ArcVar a b)) (Var (NodeVar node1)) (pair_name ''arc_node1_'' a b),
        LE (Var (ArcVar a b)) (Var (NodeVar node2)) (pair_name ''arc_node2_'' a b)])
       [(node1, node2), (node2, node1)]))"

text \<open>Lines 101 to 105: flow conservation at the root.\<close>

definition root_flow :: "int \<Rightarrow> node list \<Rightarrow> (node \<times> node) list \<Rightarrow> constr" where
  "root_flow k nodes keys =
     EQ (Sub (Quicksum (map (\<lambda>n. Var (FlowVar C n))
                 (filter (\<lambda>n. n \<noteq> C \<and> (C, n) \<in> set keys) nodes)))
             (Quicksum (map (\<lambda>n. Var (FlowVar n C))
                 (filter (\<lambda>n. n \<noteq> C \<and> (n, C) \<in> set keys) nodes))))
        (Const (of_int (k - 1))) ''root_flow''"

text \<open>Lines 108 to 113: flow conservation at candidate \<^verbatim>\<open>node2\<close>.\<close>

definition flow_cons :: "node list \<Rightarrow> (node \<times> node) list \<Rightarrow> nat \<Rightarrow> constr" where
  "flow_cons nodes keys node2 =
     EQ (Sub (Quicksum (map (\<lambda>node1. Var (FlowVar node1 (Idx node2)))
                 (filter (\<lambda>node1. node1 \<noteq> Idx node2 \<and> (node1, Idx node2) \<in> set keys) nodes)))
             (Quicksum (map (\<lambda>node1. Var (FlowVar (Idx node2) node1))
                 (filter (\<lambda>node1. node1 \<noteq> Idx node2 \<and> (Idx node2, node1) \<in> set keys) nodes))))
        (Var (NodeVar (Idx node2))) (''flow_cons_'' @ str_nat node2)"

text \<open>Lines 116 to 120.\<close>

definition branch_priorities :: "(node \<times> node) list \<Rightarrow> (var \<times> int) list" where
  "branch_priorities keys =
     map (\<lambda>(a, b). (ArcVar a b, if a = C \<or> b = C then 10 else 0)) keys"

text \<open>Lines 56 to 120: the model at the moment \<^verbatim>\<open>model.optimize()\<close> is called, its
  variables and constraints in the order in which they are added.\<close>

definition encode :: "edge list \<Rightarrow> nat \<Rightarrow> int \<Rightarrow> real \<Rightarrow> real \<Rightarrow> model" where
  "encode edges num_nodes k mip_gap time_limit =
     (let nodes = nodes_of num_nodes; keys = arc_keys edges in
      \<lparr> variables = concat (map (edge_vars k) edges) @ node_vars nodes,
        constraints =
          concat (map (edge_constrs k) edges)
          @ [EQ (Var (NodeVar C)) (Const 1) ''root_selected'']
          @ [EQ (Quicksum (map (\<lambda>i. Var (NodeVar (Idx i))) [0..<num_nodes]))
                (Const (of_int (k - 1))) ''k_nodes'',
             EQ (Quicksum (map (\<lambda>(a, b). Var (ArcVar a b)) keys))
                (Const (of_int (k - 1))) ''k_edges'']
          @ concat (map endpoint_constrs edges)
          @ [root_flow k nodes keys]
          @ map (flow_cons nodes keys) [0..<num_nodes],
        objective = objective_of edges,
        OutputFlag = 1,
        MIPGap = mip_gap,
        TimeLimit = time_limit,
        VarBranch = 2,
        BranchPriority = branch_priorities keys \<rparr>)"

section \<open>Solver adapter\<close>

text \<open>
  What \<^verbatim>\<open>model.optimize()\<close> leaves behind: the number of solutions found and, when there
  is one, the value \<^verbatim>\<open>.X\<close> of every variable. The solver itself is a parameter of
  \<^verbatim>\<open>milp_kmst\<close>.
\<close>

record assignment =
  SolCount :: nat
  X :: "var \<Rightarrow> real"

section \<open>Solution decoder\<close>

text \<open>\<^verbatim>\<open>tuple(sorted((node1, node2), key=str))\<close>: the sort is stable, so the pair is
  swapped only when the second label is smaller than the first.\<close>

definition edge_key :: "node \<Rightarrow> node \<Rightarrow> node \<times> node" where
  "edge_key node1 node2 =
     (if str_node node2 < str_node node1 then (node2, node1) else (node1, node2))"

text \<open>Lines 133 to 138, on \<^verbatim>\<open>selected_edges\<close> and \<^verbatim>\<open>seen_edges\<close>.\<close>

fun select_edges ::
  "(var \<Rightarrow> real) \<Rightarrow> edge list \<Rightarrow> edge list \<Rightarrow> (node \<times> node) set \<Rightarrow> edge list" where
  "select_edges x [] selected_edges seen_edges = selected_edges"
| "select_edges x ((node1, node2, weight) # rest) selected_edges seen_edges =
     (if x (ArcVar node1 node2) > 0.5 \<or> x (ArcVar node2 node1) > 0.5 then
        (if edge_key node1 node2 \<notin> seen_edges then
           select_edges x rest (selected_edges @ [(node1, node2, weight)])
             (insert (edge_key node1 node2) seen_edges)
         else select_edges x rest selected_edges seen_edges)
      else select_edges x rest selected_edges seen_edges)"

definition decode :: "assignment \<Rightarrow> nat \<Rightarrow> edge list \<Rightarrow> node list \<times> edge list" where
  "decode a num_nodes edges =
     (if SolCount a = 0 then ([C], [])
      else (C # map Idx (filter (\<lambda>i. X a (NodeVar (Idx i)) > 0.5) [0..<num_nodes]),
            select_edges (X a) edges [] {}))"

section \<open>The entry point\<close>

text \<open>
  What a call of \<^verbatim>\<open>milp_kmst\<close> does: the value it returns or the exception it raises, the
  diagnostics it prints, and the models on which it calls the solver.
\<close>

record outcome =
  returned :: "error + (node list \<times> edge list)"
  printed :: "string list"
  optimized :: "model list"

definition msg_no_candidates :: string where
  "msg_no_candidates = ''No candidate nodes provided.''"

definition msg_capacity :: string where
  "msg_capacity = ''Current version of model only supports up to 1500 nodes. Please use smaller node number for this model.''"

definition msg_infeasible :: "nat \<Rightarrow> int \<Rightarrow> string" where
  "msg_infeasible num_nodes k =
     ''This is not feasible, design for total '' @ str_nat num_nodes
       @ '' nodes instead of '' @ str_int k"

text \<open>Lines 35 to 37: \<^verbatim>\<open>if k > num_nodes: k = num_nodes\<close>.\<close>

definition clamp_k :: "nat \<Rightarrow> int \<Rightarrow> int" where
  "clamp_k num_nodes k = (if k > int num_nodes then int num_nodes else k)"

definition milp_kmst ::
  "numpy \<Rightarrow> (model \<Rightarrow> assignment) \<Rightarrow> position list \<Rightarrow> position \<Rightarrow> int \<Rightarrow> real \<Rightarrow> real \<Rightarrow> outcome" where
  "milp_kmst np optimize coords c_coords k mip_gap time_limit =
     (let num_nodes = length coords in
      if num_nodes = 0 \<or> num_nodes > 1500 then
        \<lparr> returned = Inr ([], []),
          printed = [if num_nodes = 0 then msg_no_candidates else msg_capacity],
          optimized = [] \<rparr>
      else
        let out = (if k > int num_nodes then [msg_infeasible num_nodes k] else []);
            k' = clamp_k num_nodes k
        in case pruned_edges np coords c_coords of
             Inl e \<Rightarrow> \<lparr> returned = Inl e, printed = out, optimized = [] \<rparr>
           | Inr edges \<Rightarrow>
               let m = encode edges num_nodes k' mip_gap time_limit in
               \<lparr> returned = Inr (decode (optimize m) num_nodes edges),
                 printed = out,
                 optimized = [m] \<rparr>)"

section \<open>Notions used in the statements\<close>

text \<open>
  The distance between two nodes as the builder computes it (both positions looked up,
  then the distance oracle); when the oracle returns a value; the position of a node in
  the list \<^verbatim>\<open>nodes\<close>; and the condition under which the inner loop appends an edge.
\<close>

definition euclid_ok :: "position \<Rightarrow> position \<Rightarrow> bool" where
  "euclid_ok a b \<longleftrightarrow>
     (length a = 2 \<and> length b = 2) \<or> (length a = 1 \<and> length b = 2) \<or> (length a = 2 \<and> length b = 1)"

definition node_distance :: "numpy \<Rightarrow> (node \<rightharpoonup> position) \<Rightarrow> node \<Rightarrow> node \<Rightarrow> error + real" where
  "node_distance np pos a b =
     bind_err (lookup pos a) (\<lambda>pa. bind_err (lookup pos b) (\<lambda>pb. euclid np pa pb))"

fun rank :: "node \<Rightarrow> nat" where
  "rank C = 0"
| "rank (Idx i) = Suc i"

definition kept_at :: "numpy \<Rightarrow> (node \<rightharpoonup> position) \<Rightarrow> (node \<rightharpoonup> real) \<Rightarrow> node \<Rightarrow> node \<Rightarrow> real \<Rightarrow> bool" where
  "kept_at np pos dtr a b w \<longleftrightarrow> node_distance np pos a b = Inr w \<and> keep_edge dtr a b w = Inr True"

text \<open>
  The pruning rule on the distances the builder computes: an edge is kept when one
  endpoint is the root, or when its weight is at most the larger of the two distances to
  the root.
\<close>

definition keep_rule :: "numpy \<Rightarrow> (node \<rightharpoonup> position) \<Rightarrow> node \<Rightarrow> node \<Rightarrow> real \<Rightarrow> bool" where
  "keep_rule np pos n1 n2 weight \<longleftrightarrow>
     n1 = root \<or> n2 = root \<or>
     (case (node_distance np pos n1 root, node_distance np pos n2 root) of
        (Inr d1, Inr d2) \<Rightarrow> weight \<le> max d1 d2
      | _ \<Rightarrow> False)"

text \<open>The unordered endpoint pair of an edge.\<close>

definition unordered :: "edge \<Rightarrow> node set" where
  "unordered = (\<lambda>(n1, n2, _). {n1, n2})"

text \<open>
  The inputs on which no distance computation of the builder fails: the root position has
  two components, every candidate position has one or two, and at most one candidate
  position has a single component.
\<close>

definition dims_ok :: "position \<Rightarrow> position list \<Rightarrow> bool" where
  "dims_ok c_coords coords \<longleftrightarrow>
     length c_coords = 2
     \<and> list_all (\<lambda>p. length p = 1 \<or> length p = 2) coords
     \<and> length (filter (\<lambda>p. length p = 1) coords) \<le> 1"

text \<open>The position stored for a node of the node list.\<close>

definition position_of :: "position \<Rightarrow> position list \<Rightarrow> node \<Rightarrow> position" where
  "position_of c_coords coords n = (case n of C \<Rightarrow> c_coords | Idx i \<Rightarrow> coords ! i)"

text \<open>The test of line 134: one of the two arcs of the edge has a value above 0.5.\<close>

definition selected :: "(var \<Rightarrow> real) \<Rightarrow> edge \<Rightarrow> bool" where
  "selected x = (\<lambda>(node1, node2, _). x (ArcVar node1 node2) > 0.5 \<or> x (ArcVar node2 node1) > 0.5)"

text \<open>
  What the solver takes the model to mean: the value of a linear expression under an
  assignment of reals to the variables, when a constraint holds, when a value lies in
  the domain of its variable, and when an assignment is feasible.
\<close>

fun eval :: "(var \<Rightarrow> real) \<Rightarrow> lin \<Rightarrow> real" where
  "eval x (Var v) = x v"
| "eval x (Const c) = c"
| "eval x (Scale c e) = c * eval x e"
| "eval x (Add e1 e2) = eval x e1 + eval x e2"
| "eval x (Sub e1 e2) = eval x e1 - eval x e2"
| "eval x (Quicksum es) = sum_list (map (eval x) es)"

fun holds :: "(var \<Rightarrow> real) \<Rightarrow> constr \<Rightarrow> bool" where
  "holds x (LE l r _) = (eval x l \<le> eval x r)"
| "holds x (EQ l r _) = (eval x l = eval x r)"

fun in_domain :: "(var \<Rightarrow> real) \<Rightarrow> vdecl \<Rightarrow> bool" where
  "in_domain x (v, Binary, _) = (x v = 0 \<or> x v = 1)"
| "in_domain x (v, Continuous lb ub, _) = (lb \<le> x v \<and> x v \<le> ub)"

definition feasible :: "model \<Rightarrow> (var \<Rightarrow> real) \<Rightarrow> bool" where
  "feasible m x \<longleftrightarrow> list_all (in_domain x) (variables m) \<and> list_all (holds x) (constraints m)"





text \<open>
  The distance of two positions of two components each as the program computes it, with
  the operations of numpy, and their Euclidean distance.
\<close>

definition computed_distance :: "numpy \<Rightarrow> position \<Rightarrow> position \<Rightarrow> real" where
  "computed_distance np p q =
     hypot np (subtract np (p ! 0) (q ! 0)) (subtract np (p ! 1) (q ! 1))"

definition euclidean_distance :: "position \<Rightarrow> position \<Rightarrow> real" where
  "euclidean_distance p q = sqrt ((p ! 0 - q ! 0)\<^sup>2 + (p ! 1 - q ! 1)\<^sup>2)"

text \<open>
  Every result of the two operations is within the relative error \<^verbatim>\<open>eps\<close> of the exact
  result.
\<close>

definition accurate :: "numpy \<Rightarrow> real \<Rightarrow> bool" where
  "accurate np eps \<longleftrightarrow>
     (\<forall>x y. \<bar>subtract np x y - (x - y)\<bar> \<le> eps * \<bar>x - y\<bar>)
   \<and> (\<forall>x y. \<bar>hypot np x y - sqrt (x\<^sup>2 + y\<^sup>2)\<bar> \<le> eps * sqrt (x\<^sup>2 + y\<^sup>2))"

section \<open>The loops of the builder\<close>

lemma bind_err_Inr_iff:
  "bind_err r f = Inr y \<longleftrightarrow> (\<exists>x. r = Inr x \<and> f x = Inr y)"
  by (cases r) (simp_all add: bind_err_def)

lemma lookup_Inr_iff: "lookup d key = Inr v \<longleftrightarrow> d key = Some v"
  by (simp add: lookup_def split: option.splits)

lemma np_hypot_Inr_iff: "(\<exists>w. np_hypot np d = Inr w) \<longleftrightarrow> length d = 2"
  by (auto simp add: np_hypot_def split: list.splits)

lemma euclid_Inr_iff: "(\<exists>w. euclid np a b = Inr w) \<longleftrightarrow> euclid_ok a b"
proof -
  have "(\<exists>w. euclid np a b = Inr w) \<longleftrightarrow> (\<exists>d. np_sub np a b = Inr d \<and> length d = 2)"
    using np_hypot_Inr_iff by (auto simp add: euclid_def bind_err_Inr_iff)
  also have "\<dots> \<longleftrightarrow> euclid_ok a b"
    by (auto simp add: np_sub_def euclid_ok_def split: if_splits)
  finally show ?thesis .
qed

lemma bind_err_Inl [simp]: "bind_err (Inl e) f = Inl e"
  by (simp add: bind_err_def)

lemma bind_err_Inr [simp]: "bind_err (Inr x) f = f x"
  by (simp add: bind_err_def)

lemma bind_err_assoc: "bind_err (bind_err r f) g = bind_err r (\<lambda>x. bind_err (f x) g)"
  by (cases r) simp_all

lemma case_sum_bind_err: "(case r of Inl e \<Rightarrow> Inl e | Inr x \<Rightarrow> f x) = bind_err r f"
  by (simp add: bind_err_def)

lemma edge_step_acc:
  "edge_step np pos dtr a b acc = bind_err (edge_step np pos dtr a b []) (\<lambda>new. Inr (acc @ new))"
  by (simp add: edge_step_def bind_err_def split: sum.splits)

lemma inner_loop_acc:
  "inner_loop np pos dtr a ns acc = bind_err (inner_loop np pos dtr a ns []) (\<lambda>new. Inr (acc @ new))"
proof (induction ns arbitrary: acc)
  case Nil
  show ?case by simp
next
  case (Cons b ns)
  show ?case
  proof (cases "edge_step np pos dtr a b []")
    case (Inl e)
    then have "edge_step np pos dtr a b acc = Inl e"
      by (simp add: edge_step_acc [of np pos dtr a b acc])
    with Inl show ?thesis by simp
  next
    case (Inr new)
    then have "edge_step np pos dtr a b acc = Inr (acc @ new)"
      by (simp add: edge_step_acc [of np pos dtr a b acc])
    with Inr have "inner_loop np pos dtr a (b # ns) acc = inner_loop np pos dtr a ns (acc @ new)"
      and "inner_loop np pos dtr a (b # ns) [] = inner_loop np pos dtr a ns new"
      by simp_all
    then show ?thesis
      using Cons.IH [of "acc @ new"] Cons.IH [of new]
      by (cases "inner_loop np pos dtr a ns []") simp_all
  qed
qed

lemma inner_loop_Cons:
  "inner_loop np pos dtr a (b # ns) [] =
     bind_err (edge_step np pos dtr a b []) (\<lambda>new.
     bind_err (inner_loop np pos dtr a ns []) (\<lambda>news. Inr (new @ news)))"
proof (cases "edge_step np pos dtr a b []")
  case (Inl e)
  then show ?thesis by simp
next
  case (Inr new)
  then show ?thesis by (simp add: inner_loop_acc [of np pos dtr a ns new])
qed

lemma outer_loop_acc:
  "outer_loop np pos dtr ns acc = bind_err (outer_loop np pos dtr ns []) (\<lambda>new. Inr (acc @ new))"
proof (induction ns arbitrary: acc)
  case Nil
  show ?case by simp
next
  case (Cons a ns)
  show ?case
  proof (cases "inner_loop np pos dtr a ns []")
    case (Inl e)
    then have "inner_loop np pos dtr a ns acc = Inl e"
      by (simp add: inner_loop_acc [of np pos dtr a ns acc])
    with Inl show ?thesis by simp
  next
    case (Inr new)
    then have "inner_loop np pos dtr a ns acc = Inr (acc @ new)"
      by (simp add: inner_loop_acc [of np pos dtr a ns acc])
    with Inr have "outer_loop np pos dtr (a # ns) acc = outer_loop np pos dtr ns (acc @ new)"
      and "outer_loop np pos dtr (a # ns) [] = outer_loop np pos dtr ns new"
      by simp_all
    then show ?thesis
      using Cons.IH [of "acc @ new"] Cons.IH [of new]
      by (cases "outer_loop np pos dtr ns []") simp_all
  qed
qed

lemma outer_loop_Cons:
  "outer_loop np pos dtr (a # ns) [] =
     bind_err (inner_loop np pos dtr a ns []) (\<lambda>new.
     bind_err (outer_loop np pos dtr ns []) (\<lambda>news. Inr (new @ news)))"
proof (cases "inner_loop np pos dtr a ns []")
  case (Inl e)
  then show ?thesis by simp
next
  case (Inr new)
  then show ?thesis by (simp add: outer_loop_acc [of np pos dtr ns new])
qed

text \<open>What one step contributes: the weight of the pair and whether it is kept.\<close>

lemma edge_step_Nil:
  "edge_step np pos dtr a b [] =
     bind_err (node_distance np pos a b) (\<lambda>w.
     bind_err (keep_edge dtr a b w) (\<lambda>kept. Inr (if kept then [(a, b, w)] else [])))"
  by (simp add: edge_step_def node_distance_def bind_err_def split: sum.splits)

lemma inner_loop_Inr_set:
  "inner_loop np pos dtr a ns [] = Inr es \<Longrightarrow>
     set es = {(a, b, w) | b w. b \<in> set ns \<and> node_distance np pos a b = Inr w
                 \<and> keep_edge dtr a b w = Inr True}"
proof (induction ns arbitrary: es)
  case Nil
  then show ?case by simp
next
  case (Cons b ns)
  from Cons.prems obtain w kept news where
    w: "node_distance np pos a b = Inr w" and k: "keep_edge dtr a b w = Inr kept"
    and n: "inner_loop np pos dtr a ns [] = Inr news"
    and es: "es = (if kept then [(a, b, w)] else []) @ news"
    by (auto simp add: inner_loop_Cons edge_step_Nil bind_err_Inr_iff simp del: inner_loop.simps)
  show ?case
    using Cons.IH [OF n] w k es by (cases kept) auto
qed

lemma inner_loop_Inr_pairs:
  "inner_loop np pos dtr a ns [] = Inr es \<Longrightarrow>
     map (\<lambda>(x, y, w). (x, y)) es = map (Pair a) (filter (\<lambda>b. \<exists>w. kept_at np pos dtr a b w) ns)"
proof (induction ns arbitrary: es)
  case Nil
  then show ?case by simp
next
  case (Cons b ns)
  from Cons.prems obtain w kept news where
    w: "node_distance np pos a b = Inr w" and k: "keep_edge dtr a b w = Inr kept"
    and n: "inner_loop np pos dtr a ns [] = Inr news"
    and es: "es = (if kept then [(a, b, w)] else []) @ news"
    by (auto simp add: inner_loop_Cons edge_step_Nil bind_err_Inr_iff simp del: inner_loop.simps)
  show ?case
    using Cons.IH [OF n] w k es by (cases kept) (auto simp add: kept_at_def)
qed

lemma inner_loop_Inr_set':
  "inner_loop np pos dtr a ns [] = Inr es \<Longrightarrow>
     set es = {(a, b, w) | b w. b \<in> set ns \<and> kept_at np pos dtr a b w}"
  using inner_loop_Inr_set [of np pos dtr a ns es] by (simp add: kept_at_def)

lemma outer_loop_Inr_set:
  "outer_loop np pos dtr ns [] = Inr es \<Longrightarrow> sorted_wrt (\<lambda>x y. rank x < rank y) ns \<Longrightarrow>
     set es = {(a, b, w) | a b w. a \<in> set ns \<and> b \<in> set ns \<and> rank a < rank b
                 \<and> kept_at np pos dtr a b w}"
proof (induction ns arbitrary: es)
  case Nil
  then show ?case by simp
next
  case (Cons a ns)
  from Cons.prems(1) obtain new news where
    new: "inner_loop np pos dtr a ns [] = Inr new"
    and news: "outer_loop np pos dtr ns [] = Inr news"
    and es: "es = new @ news"
    by (auto simp add: outer_loop_Cons bind_err_Inr_iff simp del: outer_loop.simps)
  from Cons.prems(2) have srt: "sorted_wrt (\<lambda>x y. rank x < rank y) ns"
    and lt: "\<forall>b\<in>set ns. rank a < rank b" by simp_all
  have 1: "set new = {(a, b, w) | b w. b \<in> set ns \<and> kept_at np pos dtr a b w}"
    by (rule inner_loop_Inr_set' [OF new])
  have 2: "set news = {(x, b, w) | x b w. x \<in> set ns \<and> b \<in> set ns \<and> rank x < rank b
                 \<and> kept_at np pos dtr x b w}"
    by (rule Cons.IH [OF news srt])
  show ?case
    unfolding es set_append 1 2 using lt by (auto 4 3)
qed

lemma outer_loop_Inr_distinct:
  "outer_loop np pos dtr ns [] = Inr es \<Longrightarrow> sorted_wrt (\<lambda>x y. rank x < rank y) ns \<Longrightarrow>
     distinct (map (\<lambda>(x, y, w). (x, y)) es)"
proof (induction ns arbitrary: es)
  case Nil
  then show ?case by simp
next
  case (Cons a ns)
  from Cons.prems(1) obtain new news where
    new: "inner_loop np pos dtr a ns [] = Inr new"
    and news: "outer_loop np pos dtr ns [] = Inr news"
    and es: "es = new @ news"
    by (auto simp add: outer_loop_Cons bind_err_Inr_iff simp del: outer_loop.simps)
  from Cons.prems(2) have srt: "sorted_wrt (\<lambda>x y. rank x < rank y) ns"
    and lt: "\<forall>b\<in>set ns. rank a < rank b" by simp_all
  have dns: "distinct ns"
    using srt by (induction ns) auto
  have 1: "distinct (map (\<lambda>(x, y, w). (x, y)) new)"
    unfolding inner_loop_Inr_pairs [OF new] using dns by (simp add: distinct_map inj_on_def)
  have 2: "distinct (map (\<lambda>(x, y, w). (x, y)) news)"
    by (rule Cons.IH [OF news srt])
  have 3: "fst ` set new \<subseteq> {a}"
    unfolding inner_loop_Inr_set' [OF new] by auto
  have 4: "fst ` set news \<subseteq> set ns"
    unfolding outer_loop_Inr_set [OF news srt] by auto
  have "a \<notin> set ns" using lt by auto
  with 3 4 have "set (map (\<lambda>(x, y, w). (x, y)) new) \<inter> set (map (\<lambda>(x, y, w). (x, y)) news) = {}"
    by (auto simp add: image_iff) (metis fst_conv image_subset_iff singletonD)+
  with 1 2 show ?case unfolding es by simp
qed

lemma mapM_err_Inr_iff:
  "mapM_err f xs = Inr ys \<longleftrightarrow> list_all2 (\<lambda>x y. f x = Inr y) xs ys"
proof (induction xs arbitrary: ys)
  case Nil
  show ?case by auto
next
  case (Cons x xs)
  show ?case
    by (cases "f x"; cases "mapM_err f xs") (auto simp add: Cons.IH [symmetric] list_all2_Cons1)
qed

lemma distance_entry_Inr_iff:
  "distance_entry np pos n = Inr kv \<longleftrightarrow> (\<exists>d. node_distance np pos n root = Inr d \<and> kv = (n, d))"
  by (auto simp add: distance_entry_def node_distance_def bind_err_Inr_iff)

lemma distances_to_root_Inr:
  assumes "distances_to_root np pos nodes = Inr dtr" and "n \<in> set nodes"
  shows "\<exists>d. dtr n = Some d \<and> node_distance np pos n root = Inr d"
proof -
  from assms(1) obtain kvs where
    kvs: "list_all2 (\<lambda>x y. distance_entry np pos x = Inr y) nodes kvs"
    and dtr: "dtr = map_of (rev kvs)"
    by (auto simp add: distances_to_root_def bind_err_Inr_iff mapM_err_Inr_iff)
  have each: "node_distance np pos (fst kv) root = Inr (snd kv)" if "kv \<in> set kvs" for kv
  proof -
    from that obtain i where "i < length kvs" and "kvs ! i = kv"
      by (auto simp add: in_set_conv_nth)
    with kvs have "distance_entry np pos (nodes ! i) = Inr kv"
      by (auto dest: list_all2_nthD2)
    then show ?thesis by (auto simp add: distance_entry_Inr_iff)
  qed
  from assms(2) obtain i where i: "i < length nodes" and ni: "nodes ! i = n"
    by (auto simp add: in_set_conv_nth)
  with kvs have "distance_entry np pos n = Inr (kvs ! i)" and "kvs ! i \<in> set kvs"
    by (auto simp add: list_all2_conv_all_nth)
  then obtain kv where "kv \<in> set kvs" and "distance_entry np pos n = Inr kv"
    by blast
  then have "n \<in> fst ` set (rev kvs)"
    by (auto simp add: distance_entry_Inr_iff image_iff) (metis fst_conv)
  then obtain d where d: "map_of (rev kvs) n = Some d"
    by (metis domD dom_map_of_conv_image_fst)
  then have "(n, d) \<in> set kvs" by (auto dest: map_of_SomeD)
  with each [of "(n, d)"] have "node_distance np pos n root = Inr d" by simp
  with d dtr show ?thesis by simp
qed

lemma distances_to_root_ok:
  "(\<exists>dtr. distances_to_root np pos nodes = Inr dtr) \<longleftrightarrow>
     (\<forall>n\<in>set nodes. \<exists>d. node_distance np pos n root = Inr d)"
proof
  assume "\<exists>dtr. distances_to_root np pos nodes = Inr dtr"
  then show "\<forall>n\<in>set nodes. \<exists>d. node_distance np pos n root = Inr d"
    using distances_to_root_Inr by blast
next
  assume a: "\<forall>n\<in>set nodes. \<exists>d. node_distance np pos n root = Inr d"
  then have "\<exists>kvs. list_all2 (\<lambda>x y. distance_entry np pos x = Inr y) nodes kvs"
  proof (induction nodes)
    case Nil
    show ?case by simp
  next
    case (Cons n nodes)
    then show ?case by (auto simp add: list_all2_Cons1 distance_entry_Inr_iff)
  qed
  then show "\<exists>dtr. distances_to_root np pos nodes = Inr dtr"
    by (auto simp add: distances_to_root_def bind_err_Inr_iff mapM_err_Inr_iff)
qed

lemma keep_edge_Inr:
  "dtr a = Some da \<Longrightarrow> dtr b = Some db \<Longrightarrow>
     keep_edge dtr a b w = Inr (a = root \<or> b = root \<or> w \<le> max da db)"
  by (simp add: keep_edge_def lookup_def)


section \<open>The guards of the entry point\<close>

text \<open>
  Claim C6. With no candidate position the call returns the pair of empty lists at once:
  it prints the one diagnostic of that branch and never hands a model to the solver,
  whatever the root position, k, the gap and the time limit are.
\<close>

theorem milp_kmst_no_candidates:
  "milp_kmst np optimize [] c_coords k mip_gap time_limit =
     \<lparr> returned = Inr ([], []), printed = [msg_no_candidates], optimized = [] \<rparr>"
  by (simp add: milp_kmst_def)

text \<open>
  Claim C7. With more than 1500 candidate positions the call returns the pair of empty
  lists (a value, not an exception), prints the capacity diagnostic, and never hands a
  model to the solver.
\<close>

theorem milp_kmst_over_capacity:
  "length coords > 1500 \<Longrightarrow>
   milp_kmst np optimize coords c_coords k mip_gap time_limit =
     \<lparr> returned = Inr ([], []), printed = [msg_capacity], optimized = [] \<rparr>"
  by (auto simp add: milp_kmst_def)

theorem milp_kmst_over_capacity_witness:
  "length (replicate 1501 [0, 0 :: real]) > 1500 \<and>
   milp_kmst exact (\<lambda>m. \<lparr> SolCount = 0, X = (\<lambda>v. 0) \<rparr>) (replicate 1501 [0, 0]) [0, 0] 20 0.01 300 =
     \<lparr> returned = Inr ([], []), printed = [msg_capacity], optimized = [] \<rparr>"
  using milp_kmst_over_capacity [of "replicate 1501 [0, 0]" exact] by simp

section \<open>The pruned edge list\<close>

lemma euclid_ok_sym: "euclid_ok a b \<longleftrightarrow> euclid_ok b a"
  by (auto simp add: euclid_ok_def)

lemma node_distance_ok_sym:
  "(\<exists>w. node_distance np pos a b = Inr w) \<longleftrightarrow> (\<exists>w. node_distance np pos b a = Inr w)"
proof -
  have *: "(\<exists>w. node_distance np pos a b = Inr w) \<longleftrightarrow>
      (\<exists>pa pb. pos a = Some pa \<and> pos b = Some pb \<and> euclid_ok pa pb)" for a b
    unfolding euclid_Inr_iff [of np, symmetric]
    by (auto simp add: node_distance_def bind_err_Inr_iff lookup_Inr_iff)
  show ?thesis unfolding * using euclid_ok_sym by blast
qed

lemma sorted_nodes_of: "sorted_wrt (\<lambda>x y. rank x < rank y) (nodes_of n)"
proof -
  have "rank \<circ> Idx = Suc" by (simp add: fun_eq_iff)
  then have eq: "map rank (nodes_of n) = [0..<Suc n]"
    by (simp add: nodes_of_def root_def upt_conv_Cons map_Suc_upt del: upt_Suc)
  have "sorted_wrt (<) (map rank (nodes_of n))"
    unfolding eq by (rule sorted_wrt_upt)
  then show ?thesis by (simp only: sorted_wrt_map)
qed

lemma rank_inj: "rank a = rank b \<longleftrightarrow> a = b"
  by (cases a; cases b) simp_all

lemma kept_at_iff:
  assumes "distances_to_root np pos nodes = Inr dtr" and "a \<in> set nodes" and "b \<in> set nodes"
  shows "kept_at np pos dtr a b w \<longleftrightarrow> node_distance np pos a b = Inr w \<and> keep_rule np pos a b w"
proof -
  from distances_to_root_Inr [OF assms(1) assms(2)] obtain da where
    da: "dtr a = Some da" "node_distance np pos a root = Inr da" by blast
  from distances_to_root_Inr [OF assms(1) assms(3)] obtain db where
    db: "dtr b = Some db" "node_distance np pos b root = Inr db" by blast
  show ?thesis
    by (auto simp add: kept_at_def keep_rule_def keep_edge_Inr [OF da(1) db(1)] da(2) db(2))
qed

lemma pruned_edges_Inr_set:
  assumes "pruned_edges np coords c_coords = Inr edges"
  shows "set edges =
     {(a, b, w) | a b w. a \<in> set (nodes_of (length coords)) \<and> b \<in> set (nodes_of (length coords))
        \<and> rank a < rank b
        \<and> node_distance np (node_positions c_coords coords) a b = Inr w
        \<and> keep_rule np (node_positions c_coords coords) a b w}"
proof -
  let ?pos = "node_positions c_coords coords" and ?nodes = "nodes_of (length coords)"
  from assms obtain dtr where
    dtr: "distances_to_root np ?pos ?nodes = Inr dtr"
    and out: "outer_loop np ?pos dtr ?nodes [] = Inr edges"
    by (auto simp add: pruned_edges_def Let_def bind_err_Inr_iff)
  show ?thesis
    unfolding outer_loop_Inr_set [OF out sorted_nodes_of]
    using kept_at_iff [OF dtr] by auto
qed

lemma pruned_edges_Inr_distinct:
  assumes "pruned_edges np coords c_coords = Inr edges"
  shows "distinct (map (\<lambda>(x, y, w). (x, y)) edges)"
proof -
  let ?pos = "node_positions c_coords coords" and ?nodes = "nodes_of (length coords)"
  from assms obtain dtr where
    out: "outer_loop np ?pos dtr ?nodes [] = Inr edges"
    by (auto simp add: pruned_edges_def Let_def bind_err_Inr_iff)
  show ?thesis
    by (rule outer_loop_Inr_distinct [OF out sorted_nodes_of])
qed

lemma pruned_edges_Inr_unordered:
  assumes "pruned_edges np coords c_coords = Inr edges"
  shows "distinct (map unordered edges)"
proof -
  have ranked: "rank a < rank b" if "(a, b, w) \<in> set edges" for a b w
    using that unfolding pruned_edges_Inr_set [OF assms] by simp
  have eq: "map unordered edges = map (\<lambda>(a, b). {a, b}) (map (\<lambda>(x, y, w). (x, y)) edges)"
    by (simp add: unordered_def case_prod_unfold)
  have "inj_on (\<lambda>(a, b). {a, b}) (set (map (\<lambda>(x, y, w). (x, y)) edges))"
  proof (rule inj_onI)
    fix p q
    assume p: "p \<in> set (map (\<lambda>(x, y, w). (x, y)) edges)"
      and q: "q \<in> set (map (\<lambda>(x, y, w). (x, y)) edges)"
      and eq: "(case p of (a, b) \<Rightarrow> {a, b}) = (case q of (a, b) \<Rightarrow> {a, b})"
    from p ranked have "rank (fst p) < rank (snd p)" by auto
    moreover from q ranked have "rank (fst q) < rank (snd q)" by auto
    moreover from eq have "{fst p, snd p} = {fst q, snd q}" by (simp add: case_prod_unfold)
    ultimately show "p = q"
      by (cases p; cases q) (auto simp add: doubleton_eq_iff)
  qed
  then show ?thesis
    unfolding eq
    using pruned_edges_Inr_distinct [OF assms]
      distinct_map [of "\<lambda>(a, b). {a, b}" "map (\<lambda>(x, y, w). (x, y)) edges"]
    by blast
qed

lemma set_nodes_of: "set (nodes_of n) = insert C (Idx ` {..<n})"
  by (auto simp add: nodes_of_def root_def)

section \<open>When the builder returns\<close>

lemma inner_loop_ok:
  "(\<exists>es. inner_loop np pos dtr a ns [] = Inr es) \<longleftrightarrow>
     (\<forall>b\<in>set ns. \<exists>new. edge_step np pos dtr a b [] = Inr new)"
  by (induction ns) (auto simp add: inner_loop_Cons bind_err_Inr_iff simp del: inner_loop.simps(2))

lemma outer_loop_ok:
  "(\<exists>es. outer_loop np pos dtr ns [] = Inr es) \<longleftrightarrow>
     sorted_wrt (\<lambda>a b. \<exists>new. edge_step np pos dtr a b [] = Inr new) ns"
  by (induction ns)
    (auto simp add: outer_loop_Cons bind_err_Inr_iff inner_loop_ok [symmetric]
      simp del: outer_loop.simps(2))

lemma edge_step_ok:
  assumes "distances_to_root np pos nodes = Inr dtr" and "a \<in> set nodes" and "b \<in> set nodes"
  shows "(\<exists>new. edge_step np pos dtr a b [] = Inr new) \<longleftrightarrow> (\<exists>w. node_distance np pos a b = Inr w)"
proof -
  from distances_to_root_Inr [OF assms(1) assms(2)] obtain da where da: "dtr a = Some da" by blast
  from distances_to_root_Inr [OF assms(1) assms(3)] obtain db where db: "dtr b = Some db" by blast
  show ?thesis
    by (simp add: edge_step_Nil bind_err_Inr_iff keep_edge_Inr [OF da db])
qed

lemma sorted_wrt_cong_set:
  "(\<And>x y. x \<in> set xs \<Longrightarrow> y \<in> set xs \<Longrightarrow> P x y \<longleftrightarrow> Q x y) \<Longrightarrow>
     sorted_wrt P xs \<longleftrightarrow> sorted_wrt Q xs"
  by (induction xs) auto

lemma pruned_edges_ok_nodes:
  "(\<exists>es. pruned_edges np coords c_coords = Inr es) \<longleftrightarrow>
     (\<forall>n\<in>set (nodes_of (length coords)).
         \<exists>d. node_distance np (node_positions c_coords coords) n root = Inr d)
     \<and> sorted_wrt (\<lambda>a b. \<exists>w. node_distance np (node_positions c_coords coords) a b = Inr w)
         (nodes_of (length coords))"
proof -
  let ?pos = "node_positions c_coords coords" and ?nodes = "nodes_of (length coords)"
  have "(\<exists>es. pruned_edges np coords c_coords = Inr es) \<longleftrightarrow>
      (\<exists>dtr. distances_to_root np ?pos ?nodes = Inr dtr \<and> (\<exists>es. outer_loop np ?pos dtr ?nodes [] = Inr es))"
    by (auto simp add: pruned_edges_def Let_def bind_err_Inr_iff)
  also have "\<dots> \<longleftrightarrow> (\<exists>dtr. distances_to_root np ?pos ?nodes = Inr dtr
      \<and> sorted_wrt (\<lambda>a b. \<exists>w. node_distance np ?pos a b = Inr w) ?nodes)"
    using edge_step_ok [of np ?pos ?nodes]
    by (auto simp add: outer_loop_ok cong: sorted_wrt_cong_set)
  finally show ?thesis
    using distances_to_root_ok [of np ?pos ?nodes] by auto
qed

lemma node_distance_nodes:
  assumes "a \<in> set (nodes_of (length coords))" and "b \<in> set (nodes_of (length coords))"
  shows "node_distance np (node_positions c_coords coords) a b =
           euclid np (position_of c_coords coords a) (position_of c_coords coords b)"
  using assms
  by (auto simp add: set_nodes_of node_distance_def node_positions_def position_of_def lookup_def)

lemma sorted_wrt_nth: "sorted_wrt (\<lambda>i j. P (xs ! i) (xs ! j)) [0..<length xs] \<longleftrightarrow> sorted_wrt P xs"
proof -
  have "sorted_wrt P (map ((!) xs) [0..<length xs]) \<longleftrightarrow> sorted_wrt P xs"
    by (simp only: map_nth)
  then show ?thesis by (simp only: sorted_wrt_map)
qed

lemma at_most_one_iff:
  "sorted_wrt (\<lambda>p q. \<not> (P p \<and> P q)) xs \<longleftrightarrow> length (filter P xs) \<le> 1"
proof (induction xs)
  case Nil
  show ?case by simp
next
  case (Cons x xs)
  show ?case
  proof (cases "P x")
    case True
    have "(\<forall>y\<in>set xs. \<not> P y) \<longleftrightarrow> filter P xs = []"
      by (simp add: filter_empty_conv)
    with True Cons.IH show ?thesis by auto
  next
    case False
    with Cons.IH show ?thesis by simp
  qed
qed

lemma pruned_edges_ok:
  "(\<exists>es. pruned_edges np coords c_coords = Inr es) \<longleftrightarrow> dims_ok c_coords coords"
proof -
  let ?n = "length coords"
  let ?pof = "position_of c_coords coords"
  let ?E = "\<lambda>a b. euclid_ok (?pof a) (?pof b)"
  have nd: "(\<exists>w. node_distance np (node_positions c_coords coords) a b = Inr w) \<longleftrightarrow> ?E a b"
    if "a \<in> set (nodes_of ?n)" and "b \<in> set (nodes_of ?n)" for a b
    using node_distance_nodes [OF that] euclid_Inr_iff by simp
  have rootin: "root \<in> set (nodes_of ?n)" by (simp add: nodes_of_def)
  have 1: "(\<exists>es. pruned_edges np coords c_coords = Inr es) \<longleftrightarrow>
      (\<forall>n\<in>set (nodes_of ?n). ?E n root) \<and> sorted_wrt ?E (nodes_of ?n)"
    unfolding pruned_edges_ok_nodes
    using nd rootin sorted_wrt_cong_set [of "nodes_of ?n"
        "\<lambda>a b. \<exists>w. node_distance np (node_positions c_coords coords) a b = Inr w" ?E]
    by auto
  have 2: "(\<forall>n\<in>set (nodes_of ?n). ?E n root) \<longleftrightarrow>
      euclid_ok c_coords c_coords \<and> (\<forall>p\<in>set coords. euclid_ok p c_coords)"
    by (auto simp add: set_nodes_of root_def position_of_def all_set_conv_all_nth)
  have "sorted_wrt ?E (map Idx [0..<?n]) \<longleftrightarrow>
      sorted_wrt (\<lambda>i j. euclid_ok (coords ! i) (coords ! j)) [0..<?n]"
    by (simp add: sorted_wrt_map position_of_def)
  then have 3: "sorted_wrt ?E (nodes_of ?n) \<longleftrightarrow>
      (\<forall>p\<in>set coords. euclid_ok c_coords p) \<and> sorted_wrt euclid_ok coords"
    by (auto simp add: nodes_of_def root_def position_of_def all_set_conv_all_nth sorted_wrt_nth)
  have 4: "euclid_ok c_coords c_coords \<and> (\<forall>p\<in>set coords. euclid_ok p c_coords)
      \<and> (\<forall>p\<in>set coords. euclid_ok c_coords p) \<longleftrightarrow>
      length c_coords = 2 \<and> (\<forall>p\<in>set coords. length p = 1 \<or> length p = 2)"
    by (auto simp add: euclid_ok_def)
  have 5: "sorted_wrt euclid_ok coords \<longleftrightarrow>
      sorted_wrt (\<lambda>p q. \<not> (length p = 1 \<and> length q = 1)) coords"
    if "\<forall>p\<in>set coords. length p = 1 \<or> length p = 2"
    using that by (intro sorted_wrt_cong_set) (auto simp add: euclid_ok_def)
  show ?thesis
    unfolding 1 2 3 dims_ok_def list_all_iff
    using 4 5 at_most_one_iff [of "\<lambda>p. length p = 1" coords] by blast
qed

section \<open>Outcomes of the entry point\<close>

lemma milp_kmst_accepted:
  assumes "0 < length coords" and "length coords \<le> 1500"
  shows "milp_kmst np optimize coords c_coords k mip_gap time_limit =
     (case pruned_edges np coords c_coords of
        Inl e \<Rightarrow> \<lparr> returned = Inl e,
                   printed = (if k > int (length coords) then [msg_infeasible (length coords) k] else []),
                   optimized = [] \<rparr>
      | Inr edges \<Rightarrow>
          \<lparr> returned = Inr (decode
               (optimize (encode edges (length coords) (clamp_k (length coords) k) mip_gap time_limit))
               (length coords) edges),
            printed = (if k > int (length coords) then [msg_infeasible (length coords) k] else []),
            optimized = [encode edges (length coords) (clamp_k (length coords) k) mip_gap time_limit] \<rparr>)"
  using assms by (simp add: milp_kmst_def Let_def split: sum.splits)

lemma milp_kmst_rejected:
  assumes "length coords = 0 \<or> 1500 < length coords"
  shows "optimized (milp_kmst np optimize coords c_coords k mip_gap time_limit) = []"
    and "returned (milp_kmst np optimize coords c_coords k mip_gap time_limit) = Inr ([], [])"
  using assms by (auto simp add: milp_kmst_def)

text \<open>
  Claim C5. Whenever the solver is called (on the model m) and reports no solution at all,
  the call returns the root alone with no edge, as a value: no exception is raised,
  whatever the number of candidates.
\<close>

theorem milp_kmst_no_solution:
  assumes "optimized (milp_kmst np optimize coords c_coords k mip_gap time_limit) = [m]"
    and "SolCount (optimize m) = 0"
  shows "returned (milp_kmst np optimize coords c_coords k mip_gap time_limit) = Inr ([C], [])"
proof -
  have "\<not> (length coords = 0 \<or> 1500 < length coords)"
  proof
    assume a: "length coords = 0 \<or> 1500 < length coords"
    from milp_kmst_rejected(1) [OF a, of np optimize c_coords k mip_gap time_limit] assms(1)
    show False by simp
  qed
  then have acc: "0 < length coords" "length coords \<le> 1500"
    by (simp_all add: not_less)
  show ?thesis
    using assms unfolding milp_kmst_accepted [OF acc]
    by (cases "pruned_edges np coords c_coords") (auto simp add: decode_def)
qed

lemma pruned_one: "pruned_edges exact [[10, 0]] [0, 0] = Inr [(C, Idx 0, 10)]"
  by (simp add: pruned_edges_def nodes_of_def node_positions_def distances_to_root_def
      distance_entry_def lookup_def root_def euclid_def np_sub_def np_hypot_def exact_def
      edge_step_def keep_edge_def)

theorem milp_kmst_no_solution_witness:
  "optimized (milp_kmst exact (\<lambda>m. \<lparr> SolCount = 0, X = (\<lambda>v. 0) \<rparr>) [[10, 0]] [0, 0] 2 0.01 300)
     = [encode [(C, Idx 0, 10)] 1 1 0.01 300]
   \<and> returned (milp_kmst exact (\<lambda>m. \<lparr> SolCount = 0, X = (\<lambda>v. 0) \<rparr>) [[10, 0]] [0, 0] 2 0.01 300)
     = Inr ([C], [])"
proof -
  have o: "optimized (milp_kmst exact (\<lambda>m. \<lparr> SolCount = 0, X = (\<lambda>v. 0) \<rparr>) [[10, 0]] [0, 0] 2 0.01 300)
     = [encode [(C, Idx 0, 10)] 1 1 0.01 300]"
    by (simp add: milp_kmst_def pruned_one clamp_k_def)
  show ?thesis
    using milp_kmst_no_solution [OF o] o by simp
qed

section \<open>Malformed positions\<close>












lemma pruned_mixed:
  "pruned_edges exact [[3], [3, 7]] [0, 7] = Inr [(C, Idx 0, 5), (C, Idx 1, 3), (Idx 0, Idx 1, 4)]"
  by (simp add: pruned_edges_def nodes_of_def node_positions_def distances_to_root_def
      distance_entry_def lookup_def root_def euclid_def np_sub_def np_hypot_def exact_def
      edge_step_def keep_edge_def upt_rec)


section \<open>The boundary of the capacity guard\<close>

lemma root_adjacent:
  assumes "pruned_edges np coords c_coords = Inr edges" and "i < length coords"
  shows "\<exists>w. (C, Idx i, w) \<in> set edges"
proof -
  let ?pos = "node_positions c_coords coords"
  have in_nodes: "Idx i \<in> set (nodes_of (length coords))" "C \<in> set (nodes_of (length coords))"
    using assms(2) by (simp_all add: set_nodes_of)
  from assms(1) pruned_edges_ok_nodes [of np coords c_coords] in_nodes(1)
  obtain d' where "node_distance np ?pos (Idx i) root = Inr d'" by blast
  then obtain d where "node_distance np ?pos C (Idx i) = Inr d"
    using node_distance_ok_sym [of np ?pos "Idx i" C] by (auto simp add: root_def)
  then have "(C, Idx i, d) \<in> set edges"
    unfolding pruned_edges_Inr_set [OF assms(1)] using in_nodes
    by (simp add: keep_rule_def root_def)
  then show ?thesis ..
qed

lemma msg_capacity_distinct:
  "msg_capacity \<noteq> msg_no_candidates" "msg_capacity \<noteq> msg_infeasible n k"
  by (simp_all add: msg_capacity_def msg_no_candidates_def msg_infeasible_def)

text \<open>
  Claim C10. A list of exactly 1500 candidate positions passes the guard: the call is not
  rejected (it does not print the capacity diagnostic and does not return the pair of
  empty lists), and when the positions are such that the distances can be computed, the
  pruned edge list is built, exactly one model is built from it and handed to the
  solver, and every candidate is joined to the root in the pruned edge list. Over all
  inputs, the capacity diagnostic is printed exactly when there are more than 1500
  candidates.
\<close>

theorem capacity_boundary:
  assumes "length coords = 1500"
  shows "printed (milp_kmst np optimize coords c_coords k mip_gap time_limit) \<noteq> [msg_capacity]
       \<and> returned (milp_kmst np optimize coords c_coords k mip_gap time_limit) \<noteq> Inr ([], [])
       \<and> (dims_ok c_coords coords \<longrightarrow>
            (\<exists>edges. pruned_edges np coords c_coords = Inr edges
               \<and> optimized (milp_kmst np optimize coords c_coords k mip_gap time_limit)
                   = [encode edges 1500 (clamp_k 1500 k) mip_gap time_limit]
               \<and> (\<forall>i<1500. \<exists>w. (C, Idx i, w) \<in> set edges)))
       \<and> (printed (milp_kmst np' optimize' coords' c_coords' k' mip_gap' time_limit') = [msg_capacity]
            \<longleftrightarrow> 1500 < length coords')"
proof -
  from assms have acc: "0 < length coords" "length coords \<le> 1500" by simp_all
  note out = milp_kmst_accepted [OF acc, of np optimize c_coords k mip_gap time_limit]
  have 1: "printed (milp_kmst np optimize coords c_coords k mip_gap time_limit) \<noteq> [msg_capacity]"
    unfolding out using msg_capacity_distinct(2) [of "length coords" k]
    by (cases "pruned_edges np coords c_coords") auto
  have 2: "returned (milp_kmst np optimize coords c_coords k mip_gap time_limit) \<noteq> Inr ([], [])"
    unfolding out by (cases "pruned_edges np coords c_coords") (auto simp add: decode_def)
  have 3: "\<exists>edges. pruned_edges np coords c_coords = Inr edges
               \<and> optimized (milp_kmst np optimize coords c_coords k mip_gap time_limit)
                   = [encode edges 1500 (clamp_k 1500 k) mip_gap time_limit]
               \<and> (\<forall>i<1500. \<exists>w. (C, Idx i, w) \<in> set edges)"
    if "dims_ok c_coords coords"
  proof -
    from that obtain edges where e: "pruned_edges np coords c_coords = Inr edges"
      using pruned_edges_ok [of np coords c_coords] by blast
    have "optimized (milp_kmst np optimize coords c_coords k mip_gap time_limit)
        = [encode edges 1500 (clamp_k 1500 k) mip_gap time_limit]"
      unfolding out using e assms by simp
    moreover have "\<forall>i<1500. \<exists>w. (C, Idx i, w) \<in> set edges"
      using root_adjacent [OF e] assms by simp
    ultimately show ?thesis using e by blast
  qed
  have 4: "printed (milp_kmst np' optimize' coords' c_coords' k' mip_gap' time_limit') = [msg_capacity]
            \<longleftrightarrow> 1500 < length coords'"
    using msg_capacity_distinct(1) msg_capacity_distinct(2) [of "length coords'" k']
    by (cases "pruned_edges np' coords' c_coords'") (auto simp add: milp_kmst_def Let_def)
  from 1 2 3 4 show ?thesis by blast
qed

theorem capacity_boundary_witness:
  "length (replicate 1500 [0, 0 :: real]) = 1500
   \<and> dims_ok [0, 0] (replicate 1500 [0, 0])
   \<and> (\<exists>edges. pruned_edges exact (replicate 1500 [0, 0]) [0, 0] = Inr edges
        \<and> optimized (milp_kmst exact (\<lambda>m. \<lparr> SolCount = 0, X = (\<lambda>v. 0) \<rparr>) (replicate 1500 [0, 0]) [0, 0] 20 0.01 300)
            = [encode edges 1500 20 0.01 300]
        \<and> (\<exists>w. (C, Idx 1499, w) \<in> set edges))
   \<and> printed (milp_kmst exact (\<lambda>m. \<lparr> SolCount = 0, X = (\<lambda>v. 0) \<rparr>) (replicate 1500 [0, 0]) [0, 0] 20 0.01 300)
        \<noteq> [msg_capacity]"
proof -
  have d: "dims_ok [0, 0] (replicate 1500 [0, 0])"
    by (simp add: dims_ok_def list_all_iff)
  have l: "length (replicate 1500 [0, 0 :: real]) = 1500" by simp
  let ?opt = "\<lambda>m :: model. \<lparr> SolCount = 0, X = (\<lambda>v. 0) \<rparr>"
  from capacity_boundary [OF l, of exact ?opt "[0, 0]" 20 "0.01" 300 exact ?opt "[]" "[]" 0 0 0] d
  have a: "printed (milp_kmst exact ?opt (replicate 1500 [0, 0]) [0, 0] 20 0.01 300) \<noteq> [msg_capacity]"
    and b: "\<exists>edges. pruned_edges exact (replicate 1500 [0, 0]) [0, 0] = Inr edges
        \<and> optimized (milp_kmst exact ?opt (replicate 1500 [0, 0]) [0, 0] 20 0.01 300)
            = [encode edges 1500 20 0.01 300]
        \<and> (\<forall>i<1500. \<exists>w. (C, Idx i, w) \<in> set edges)"
    by (simp_all add: clamp_k_def)
  from b obtain edges where e: "pruned_edges exact (replicate 1500 [0, 0]) [0, 0] = Inr edges"
    and o: "optimized (milp_kmst exact ?opt (replicate 1500 [0, 0]) [0, 0] 20 0.01 300)
            = [encode edges 1500 20 0.01 300]"
    and r: "\<forall>i<1500. \<exists>w. (C, Idx i, w) \<in> set edges"
    by blast
  from r have "\<exists>w. (C, Idx 1499, w) \<in> set edges" by simp
  with e o a d l show ?thesis by blast
qed

section \<open>The decoder\<close>

lemma edge_key_cases: "edge_key a b = (a, b) \<or> edge_key a b = (b, a)"
  by (simp add: edge_key_def)

lemma select_edges_filter:
  assumes "distinct (map unordered es)"
    and "\<forall>key\<in>seen. {fst key, snd key} \<notin> unordered ` set es"
  shows "select_edges x es acc seen = acc @ filter (selected x) es"
  using assms
proof (induction es arbitrary: acc seen)
  case Nil
  show ?case by simp
next
  case (Cons e es)
  obtain a b w where e: "e = (a, b, w)" by (cases e) auto
  have kab: "{fst (edge_key a b), snd (edge_key a b)} = {a, b}"
    using edge_key_cases [of a b] by auto
  have ue: "unordered e = {a, b}" by (simp add: e unordered_def)
  have key: "edge_key a b \<notin> seen"
  proof
    assume "edge_key a b \<in> seen"
    with Cons.prems(2) have "{fst (edge_key a b), snd (edge_key a b)} \<notin> unordered ` set (e # es)"
      by blast
    then show False unfolding kab using ue by simp
  qed
  from Cons.prems(1) have d: "distinct (map unordered es)"
    and n: "{a, b} \<notin> unordered ` set es"
    using ue by simp_all
  have inv': "\<forall>key\<in>seen. {fst key, snd key} \<notin> unordered ` set es"
    using Cons.prems(2) by simp
  have inv: "\<forall>key\<in>insert (edge_key a b) seen. {fst key, snd key} \<notin> unordered ` set es"
    using inv' n kab by simp
  show ?case
  proof (cases "selected x e")
    case True
    then have "select_edges x (e # es) acc seen =
        select_edges x es (acc @ [(a, b, w)]) (insert (edge_key a b) seen)"
      using key by (simp add: e selected_def)
    then show ?thesis
      using Cons.IH [OF d inv] True by (simp add: e)
  next
    case False
    then have "select_edges x (e # es) acc seen = select_edges x es acc seen"
      by (simp add: e selected_def)
    then show ?thesis
      using Cons.IH [OF d inv'] False by simp
  qed
qed

lemma count_list_distinct:
  "distinct xs \<Longrightarrow> count_list xs x = (if x \<in> set xs then 1 else 0)"
  by (induction xs) auto

text \<open>
  Claim C4. When the solver has found a solution, the edges the decoder returns are
  exactly the entries of the pruned edge list with a forward or backward arc value above
  0.5, in the order of that list: each such entry occurs once in the result, as the very
  triple of the pruned list (endpoints and the weight computed when pruning), no other
  triple occurs, and no two returned edges have the same unordered endpoint pair.
\<close>

theorem decoder_emits_once:
  assumes "pruned_edges np coords c_coords = Inr edges" and "SolCount a \<noteq> 0"
  shows "snd (decode a (length coords) edges) = filter (selected (X a)) edges
       \<and> count_list (snd (decode a (length coords) edges)) e
           = (if e \<in> set edges \<and> selected (X a) e then 1 else 0)
       \<and> distinct (map unordered (snd (decode a (length coords) edges)))"
proof -
  have u: "distinct (map unordered edges)"
    by (rule pruned_edges_Inr_unordered [OF assms(1)])
  then have 1: "snd (decode a (length coords) edges) = filter (selected (X a)) edges"
    using assms(2) select_edges_filter [of edges "{}" "X a" "[]"] by (simp add: decode_def)
  from u have "distinct edges" by (simp add: distinct_map)
  then have 2: "count_list (filter (selected (X a)) edges) e
           = (if e \<in> set edges \<and> selected (X a) e then 1 else 0)"
    using count_list_distinct [of "filter (selected (X a)) edges" e] by auto
  from u have 3: "distinct (map unordered (filter (selected (X a)) edges))"
    by (simp add: distinct_map_filter)
  from 1 2 3 show ?thesis by simp
qed

theorem decoder_emits_once_witness:
  "pruned_edges exact [[3], [3, 7]] [0, 7] = Inr [(C, Idx 0, 5), (C, Idx 1, 3), (Idx 0, Idx 1, 4)]
   \<and> snd (decode \<lparr> SolCount = 1,
                    X = (\<lambda>v. if v \<in> {NodeVar C, NodeVar (Idx 1), ArcVar C (Idx 1), ArcVar (Idx 1) C}
                             then 1 else 0) \<rparr>
           (length [[3], [3, 7 :: real]]) [(C, Idx 0, 5), (C, Idx 1, 3), (Idx 0, Idx 1, 4)])
       = [(C, Idx 1, 3)]"
  using decoder_emits_once [OF pruned_mixed,
      of "\<lparr> SolCount = 1,
            X = (\<lambda>v. if v \<in> {NodeVar C, NodeVar (Idx 1), ArcVar C (Idx 1), ArcVar (Idx 1) C}
                     then 1 else 0) \<rparr>"]
    pruned_mixed
  by (simp add: selected_def)

section \<open>The constraints of the model\<close>


lemma list_all_concat_map: "list_all P (concat (map f xs)) \<longleftrightarrow> list_all (\<lambda>x. list_all P (f x)) xs"
  by (induction xs) simp_all

lemma holds_edge_constrs:
  "list_all (holds x) (concat (map (edge_constrs k) edges)) \<longleftrightarrow>
     list_all (\<lambda>(n1, n2, _). x (ArcVar n1 n2) + x (ArcVar n2 n1) \<le> 1) edges
   \<and> list_all (\<lambda>(a, b). x (FlowVar a b) \<le> of_int (k - 1) * x (ArcVar a b)) (arc_keys edges)"
  by (induction edges) (auto simp add: edge_constrs_def arc_keys_def)












lemma constraints_encode:
  "constraints (encode edges n k mip_gap time_limit) =
     concat (map (edge_constrs k) edges)
     @ [EQ (Var (NodeVar C)) (Const 1) ''root_selected'']
     @ [EQ (Quicksum (map (\<lambda>i. Var (NodeVar (Idx i))) [0..<n])) (Const (of_int (k - 1))) ''k_nodes'',
        EQ (Quicksum (map (\<lambda>(a, b). Var (ArcVar a b)) (arc_keys edges)))
           (Const (of_int (k - 1))) ''k_edges'']
     @ concat (map endpoint_constrs edges)
     @ [root_flow k (nodes_of n) (arc_keys edges)]
     @ map (flow_cons (nodes_of n) (arc_keys edges)) [0..<n]"
  by (simp add: encode_def Let_def)





section \<open>The pruning rule\<close>

lemma euclid_two:
  assumes "length p = 2" and "length q = 2"
  shows "euclid np p q = Inr (computed_distance np p q)"
proof -
  from assms obtain a b c d where "p = [a, b]" "q = [c, d]"
    by (auto simp add: length_Suc_conv numeral_2_eq_2)
  then show ?thesis
    by (simp add: euclid_def np_sub_def np_hypot_def computed_distance_def)
qed

lemma exact_distance: "computed_distance exact p q = euclidean_distance p q"
  by (simp add: computed_distance_def euclidean_distance_def exact_def)

lemma accurate_exact: "accurate exact 0"
  by (simp add: accurate_def exact_def)

lemma scaled_square_le:
  fixes u v c :: real
  assumes "\<bar>u\<bar> \<le> c * \<bar>v\<bar>"
  shows "u\<^sup>2 \<le> c\<^sup>2 * v\<^sup>2"
proof -
  have "\<bar>u\<bar>\<^sup>2 \<le> (c * \<bar>v\<bar>)\<^sup>2"
    using assms by (intro power_mono) simp_all
  then show ?thesis by (simp add: power_mult_distrib)
qed

lemma scaled_square_ge:
  fixes u v c :: real
  assumes "c * \<bar>v\<bar> \<le> \<bar>u\<bar>" and "0 \<le> c"
  shows "c\<^sup>2 * v\<^sup>2 \<le> u\<^sup>2"
proof -
  have "(c * \<bar>v\<bar>)\<^sup>2 \<le> \<bar>u\<bar>\<^sup>2"
    using assms by (intro power_mono) simp_all
  then show ?thesis by (simp add: power_mult_distrib)
qed

lemma accurate_distance:
  assumes "accurate np eps" and "0 \<le> eps" and "eps \<le> 1"
  shows "\<bar>computed_distance np p q - euclidean_distance p q\<bar>
           \<le> (2 * eps + eps\<^sup>2) * euclidean_distance p q"
proof -
  define dx where "dx = p ! 0 - q ! 0"
  define dy where "dy = p ! 1 - q ! 1"
  define dx' where "dx' = subtract np (p ! 0) (q ! 0)"
  define dy' where "dy' = subtract np (p ! 1) (q ! 1)"
  define d where "d = sqrt (dx\<^sup>2 + dy\<^sup>2)"
  define s where "s = sqrt (dx'\<^sup>2 + dy'\<^sup>2)"
  define h where "h = hypot np dx' dy'"
  have d0: "0 \<le> d" and s0: "0 \<le> s" by (simp_all add: d_def s_def)
  from assms(1) have ex: "\<bar>dx' - dx\<bar> \<le> eps * \<bar>dx\<bar>" and ey: "\<bar>dy' - dy\<bar> \<le> eps * \<bar>dy\<bar>"
    and eh: "\<bar>h - s\<bar> \<le> eps * s"
    by (simp_all add: accurate_def dx_def dy_def dx'_def dy'_def h_def s_def)
  have ux: "\<bar>dx'\<bar> \<le> (1 + eps) * \<bar>dx\<bar>" and uy: "\<bar>dy'\<bar> \<le> (1 + eps) * \<bar>dy\<bar>"
    using ex ey by (simp_all add: algebra_simps)
  have lx: "(1 - eps) * \<bar>dx\<bar> \<le> \<bar>dx'\<bar>" and ly: "(1 - eps) * \<bar>dy\<bar> \<le> \<bar>dy'\<bar>"
    using ex ey by (simp_all add: algebra_simps)
  have "dx'\<^sup>2 + dy'\<^sup>2 \<le> (1 + eps)\<^sup>2 * (dx\<^sup>2 + dy\<^sup>2)"
    using scaled_square_le [OF ux] scaled_square_le [OF uy] by (simp add: algebra_simps)
  then have "s \<le> sqrt ((1 + eps)\<^sup>2 * (dx\<^sup>2 + dy\<^sup>2))"
    unfolding s_def by (rule real_sqrt_le_mono)
  also have "\<dots> = (1 + eps) * d"
    using assms(2) by (simp add: real_sqrt_mult d_def)
  finally have su: "s \<le> (1 + eps) * d" .
  from assms(3) have e1: "0 \<le> 1 - eps" by simp
  have "(1 - eps)\<^sup>2 * (dx\<^sup>2 + dy\<^sup>2) \<le> dx'\<^sup>2 + dy'\<^sup>2"
    using scaled_square_ge [OF lx e1] scaled_square_ge [OF ly e1] by (simp add: algebra_simps)
  then have "sqrt ((1 - eps)\<^sup>2 * (dx\<^sup>2 + dy\<^sup>2)) \<le> s"
    unfolding s_def by (rule real_sqrt_le_mono)
  moreover have "sqrt ((1 - eps)\<^sup>2 * (dx\<^sup>2 + dy\<^sup>2)) = (1 - eps) * d"
    using e1 by (simp add: real_sqrt_mult d_def)
  ultimately have sl: "(1 - eps) * d \<le> s" by simp
  from eh have hu: "h \<le> (1 + eps) * s" and hl: "(1 - eps) * s \<le> h"
    by (simp_all add: algebra_simps)
  from assms(2) have "(1 + eps) * s \<le> (1 + eps) * ((1 + eps) * d)"
    using su by (intro mult_left_mono) simp_all
  with hu have 1: "h \<le> (1 + eps) * ((1 + eps) * d)" by simp
  have "(1 - eps) * ((1 - eps) * d) \<le> (1 - eps) * s"
    using sl e1 by (intro mult_left_mono) simp_all
  with hl have 2: "(1 - eps) * ((1 - eps) * d) \<le> h" by simp
  define t where "t = eps * d"
  define r where "r = eps * (eps * d)"
  have r0: "0 \<le> r" using assms(2) d0 by (simp add: r_def)
  have 3: "(1 + eps) * ((1 + eps) * d) = d + 2 * t + r"
    and 4: "(1 - eps) * ((1 - eps) * d) = d - 2 * t + r"
    and 5: "(2 * eps + eps\<^sup>2) * d = 2 * t + r"
    by (simp_all add: t_def r_def algebra_simps power2_eq_square)
  have "\<bar>h - d\<bar> \<le> (2 * eps + eps\<^sup>2) * d"
    using 1 2 r0 unfolding 3 4 5 by linarith
  then show ?thesis
    by (simp add: computed_distance_def euclidean_distance_def h_def d_def dx_def dy_def
        dx'_def dy'_def)
qed

lemma dims_ok_two:
  assumes "length c_coords = 2" and "list_all (\<lambda>p. length p = 2) coords"
  shows "dims_ok c_coords coords"
proof -
  from assms(2) have "filter (\<lambda>p. length p = 1) coords = []"
    by (auto simp add: filter_empty_conv list_all_iff)
  with assms show ?thesis by (auto simp add: dims_ok_def list_all_iff)
qed

lemma position_of_two:
  assumes "length c_coords = 2" and "list_all (\<lambda>p. length p = 2) coords"
    and "n \<in> set (nodes_of (length coords))"
  shows "length (position_of c_coords coords n) = 2"
  using assms by (auto simp add: set_nodes_of position_of_def list_all_iff)

lemma node_distance_two:
  assumes "length c_coords = 2" and "list_all (\<lambda>p. length p = 2) coords"
    and "a \<in> set (nodes_of (length coords))" and "b \<in> set (nodes_of (length coords))"
  shows "node_distance np (node_positions c_coords coords) a b =
           Inr (computed_distance np (position_of c_coords coords a) (position_of c_coords coords b))"
  unfolding node_distance_nodes [OF assms(3,4)]
  by (rule euclid_two) (rule position_of_two [OF assms(1,2)], fact)+

text \<open>
  Claim C2. For a root position and candidate positions of two components each, whatever
  the rounding of the arithmetic, the builder returns a list of edges, and the triple
  (n1, n2, w) is in it if and only if n1 and n2 are nodes of the node list, n1 is
  enumerated before n2, w is their distance as computed (the hypot of the two coordinate
  differences), and the pruning rule keeps them: one of them is the root, or w is at most
  the larger of their two computed distances to the root. So two different nodes are
  joined by an entry of the list exactly when the rule keeps them. No two entries have the
  same unordered endpoint pair. The weight of an entry is the Euclidean distance of its
  endpoints up to rounding: when every operation has a relative error of at most eps, the
  weight differs from the Euclidean distance by at most the fraction 2 eps + eps^2 of it,
  and without rounding it is the Euclidean distance. The capacity guard plays no part.
\<close>

theorem pruned_edges_rule:
  assumes "length c_coords = 2" and "list_all (\<lambda>p. length p = 2) coords"
  shows "\<exists>edges. pruned_edges np coords c_coords = Inr edges
     \<and> (\<forall>n1 n2 w. (n1, n2, w) \<in> set edges \<longleftrightarrow>
            n1 \<in> set (nodes_of (length coords)) \<and> n2 \<in> set (nodes_of (length coords))
          \<and> rank n1 < rank n2
          \<and> w = computed_distance np (position_of c_coords coords n1) (position_of c_coords coords n2)
          \<and> (n1 = root \<or> n2 = root
               \<or> w \<le> max (computed_distance np (position_of c_coords coords n1) c_coords)
                         (computed_distance np (position_of c_coords coords n2) c_coords)))
     \<and> (\<forall>n1 n2. n1 \<in> set (nodes_of (length coords)) \<and> n2 \<in> set (nodes_of (length coords))
            \<and> rank n1 < rank n2 \<longrightarrow>
            ((\<exists>w. (n1, n2, w) \<in> set edges \<or> (n2, n1, w) \<in> set edges) \<longleftrightarrow>
             n1 = root \<or> n2 = root
             \<or> computed_distance np (position_of c_coords coords n1) (position_of c_coords coords n2)
                 \<le> max (computed_distance np (position_of c_coords coords n1) c_coords)
                        (computed_distance np (position_of c_coords coords n2) c_coords)))
     \<and> distinct (map unordered edges)
     \<and> (accurate np eps \<and> 0 \<le> eps \<and> eps \<le> 1 \<longrightarrow>
          list_all (\<lambda>(n1, n2, w).
            \<bar>w - euclidean_distance (position_of c_coords coords n1) (position_of c_coords coords n2)\<bar>
              \<le> (2 * eps + eps\<^sup>2)
                   * euclidean_distance (position_of c_coords coords n1) (position_of c_coords coords n2))
            edges)"
proof -
  let ?nodes = "nodes_of (length coords)" and ?pos = "node_positions c_coords coords"
  let ?P = "position_of c_coords coords"
  from dims_ok_two [OF assms] obtain edges where e: "pruned_edges np coords c_coords = Inr edges"
    using pruned_edges_ok [of np coords c_coords] by blast
  have rootin: "root \<in> set ?nodes" by (simp add: nodes_of_def)
  have Proot: "?P root = c_coords" by (simp add: position_of_def root_def)
  have nd: "node_distance np ?pos a b = Inr (computed_distance np (?P a) (?P b))"
    if "a \<in> set ?nodes" and "b \<in> set ?nodes" for a b
    using node_distance_two [OF assms that] .
  have kr: "keep_rule np ?pos a b w \<longleftrightarrow>
      a = root \<or> b = root
      \<or> w \<le> max (computed_distance np (?P a) c_coords) (computed_distance np (?P b) c_coords)"
    if "a \<in> set ?nodes" and "b \<in> set ?nodes" for a b w
    using nd [OF that(1) rootin] nd [OF that(2) rootin] by (simp add: keep_rule_def Proot)
  have 1: "(n1, n2, w) \<in> set edges \<longleftrightarrow>
            n1 \<in> set ?nodes \<and> n2 \<in> set ?nodes \<and> rank n1 < rank n2
          \<and> w = computed_distance np (?P n1) (?P n2)
          \<and> (n1 = root \<or> n2 = root
               \<or> w \<le> max (computed_distance np (?P n1) c_coords)
                         (computed_distance np (?P n2) c_coords))" for n1 n2 w
    unfolding pruned_edges_Inr_set [OF e] using nd [of n1 n2] kr [of n1 n2 w] by auto
  have 2: "(\<exists>w. (n1, n2, w) \<in> set edges \<or> (n2, n1, w) \<in> set edges) \<longleftrightarrow>
             n1 = root \<or> n2 = root
             \<or> computed_distance np (?P n1) (?P n2)
                 \<le> max (computed_distance np (?P n1) c_coords)
                        (computed_distance np (?P n2) c_coords)"
    if "n1 \<in> set ?nodes \<and> n2 \<in> set ?nodes \<and> rank n1 < rank n2" for n1 n2
    using that unfolding 1 by auto
  have 3: "list_all (\<lambda>(n1, n2, w).
            \<bar>w - euclidean_distance (?P n1) (?P n2)\<bar>
              \<le> (2 * eps + eps\<^sup>2) * euclidean_distance (?P n1) (?P n2)) edges"
    if "accurate np eps \<and> 0 \<le> eps \<and> eps \<le> 1"
    unfolding list_all_iff using that 1 accurate_distance [of np eps] by auto
  from e 1 2 3 pruned_edges_Inr_unordered [OF e] show ?thesis by blast
qed

lemma pruned_three:
  "pruned_edges exact [[10, 0], [-10, 0], [12, 0]] [0, 0]
     = Inr [(C, Idx 0, 10), (C, Idx 1, 10), (C, Idx 2, 12), (Idx 0, Idx 2, 2)]"
  by (simp add: pruned_edges_def nodes_of_def node_positions_def distances_to_root_def
      distance_entry_def lookup_def root_def euclid_def np_sub_def np_hypot_def exact_def
      edge_step_def keep_edge_def upt_rec)

theorem pruned_edges_rule_witness:
  "length [0, 0 :: real] = 2
   \<and> list_all (\<lambda>p. length p = 2) [[10, 0], [-10, 0], [12, 0 :: real]]
   \<and> pruned_edges exact [[10, 0], [-10, 0], [12, 0]] [0, 0]
       = Inr [(C, Idx 0, 10), (C, Idx 1, 10), (C, Idx 2, 12), (Idx 0, Idx 2, 2)]
   \<and> computed_distance exact [10, 0] [12, 0] = 2
   \<and> computed_distance exact [10, 0] [-10, 0] = 20
   \<and> max (computed_distance exact [10, 0] [0, 0]) (computed_distance exact [-10, 0] [0, 0]) = 10
   \<and> distinct (map unordered [(C, Idx 0, 10), (C, Idx 1, 10), (C, Idx 2, 12), (Idx 0, Idx 2, 2)])
   \<and> accurate exact 0
   \<and> list_all (\<lambda>(n1, n2, w).
         \<bar>w - euclidean_distance (position_of [0, 0] [[10, 0], [-10, 0], [12, 0]] n1)
                (position_of [0, 0] [[10, 0], [-10, 0], [12, 0]] n2)\<bar> \<le> 0)
       [(C, Idx 0, 10), (C, Idx 1, 10), (C, Idx 2, 12), (Idx 0, Idx 2, 2)]"
proof -
  have l: "length [0, 0 :: real] = 2"
    and c: "list_all (\<lambda>p. length p = 2) [[10, 0], [-10, 0], [12, 0 :: real]]"
    by simp_all
  have cd: "computed_distance exact [10, 0] [12, 0] = 2"
    "computed_distance exact [10, 0] [-10, 0] = 20"
    "max (computed_distance exact [10, 0] [0, 0]) (computed_distance exact [-10, 0] [0, 0]) = 10"
    by (simp_all add: computed_distance_def exact_def)
  from pruned_edges_rule [OF l c, of exact 0] show ?thesis
    unfolding pruned_three using l c cd accurate_exact by simp
qed

text \<open>
  Rounding decides what is kept. Root (0, 0), candidates (3000000, 0) and (0, 0.01): the
  distance of the two candidates exceeds 3000000, the larger of their distances to the
  root, so without rounding the pair is pruned; a hypot that returns 3000000 for the
  differences 3000000 and -0.01, as rounding to the nearest double does, keeps it.
\<close>

lemma pruned_without_rounding:
  "pruned_edges exact [[3000000, 0], [0, 0.01]] [0, 0]
     = Inr [(C, Idx 0, 3000000), (C, Idx 1, 0.01)]"
proof -
  have "(3000000 :: real)\<^sup>2 < 3000000\<^sup>2 + (- 0.01)\<^sup>2" by simp
  then have "(3000000 :: real) < sqrt (3000000\<^sup>2 + (- 0.01)\<^sup>2)"
    by (rule real_less_rsqrt)
  then have "\<not> sqrt ((3000000 :: real)\<^sup>2 + (- 0.01)\<^sup>2) \<le> max 3000000 0.01"
    by simp
  then show ?thesis
    by (simp add: pruned_edges_def nodes_of_def node_positions_def distances_to_root_def
      distance_entry_def lookup_def root_def euclid_def np_sub_def np_hypot_def exact_def
      edge_step_def keep_edge_def upt_rec)
qed

lemma pruned_with_rounding:
  "pruned_edges
     \<lparr> subtract = (\<lambda>x y. x - y),
       hypot = (\<lambda>x y. if x = 3000000 \<and> y = - 0.01 then 3000000 else sqrt (x\<^sup>2 + y\<^sup>2)) \<rparr>
     [[3000000, 0], [0, 0.01]] [0, 0]
     = Inr [(C, Idx 0, 3000000), (C, Idx 1, 0.01), (Idx 0, Idx 1, 3000000)]"
  by (simp add: pruned_edges_def nodes_of_def node_positions_def distances_to_root_def
      distance_entry_def lookup_def root_def euclid_def np_sub_def np_hypot_def
      edge_step_def keep_edge_def upt_rec)

section \<open>How many nodes and edges a solution selects\<close>

lemma binary_sum_count:
  fixes f :: "'a \<Rightarrow> real"
  assumes "list_all (\<lambda>i. f i = 0 \<or> f i = 1) xs"
  shows "sum_list (map f xs) = real (length (filter (\<lambda>i. f i > 0.5) xs))"
  using assms by (induction xs) auto

lemma arc_sum_edges:
  "sum_list (map (\<lambda>(a, b). x (ArcVar a b)) (arc_keys edges))
     = sum_list (map (\<lambda>(a, b, w). x (ArcVar a b) + x (ArcVar b a)) edges)"
  by (induction edges) (auto simp add: arc_keys_def)

lemma binary_pair:
  fixes u v :: real
  assumes "u = 0 \<or> u = 1" and "v = 0 \<or> v = 1" and "u + v \<le> 1"
  shows "u + v = (if u > 0.5 \<or> v > 0.5 then 1 else 0)"
  using assms by auto

lemma selected_sum_count:
  assumes "list_all (\<lambda>(a, b, w). (x (ArcVar a b) = 0 \<or> x (ArcVar a b) = 1)
              \<and> (x (ArcVar b a) = 0 \<or> x (ArcVar b a) = 1)
              \<and> x (ArcVar a b) + x (ArcVar b a) \<le> 1) edges"
  shows "sum_list (map (\<lambda>(a, b, w). x (ArcVar a b) + x (ArcVar b a)) edges)
     = real (length (filter (selected x) edges))"
  using assms
proof (induction edges)
  case Nil
  show ?case by simp
next
  case (Cons e edges)
  obtain a b w where e: "e = (a, b, w)" by (cases e) auto
  from Cons.prems have "x (ArcVar a b) + x (ArcVar b a) = (if selected x e then 1 else 0)"
    unfolding e by (simp add: selected_def binary_pair)
  with Cons show ?case by (simp add: e)
qed

lemma in_domain_edge_vars:
  "list_all (in_domain x) (concat (map (edge_vars k) edges)) \<Longrightarrow>
   list_all (\<lambda>(a, b, w). (x (ArcVar a b) = 0 \<or> x (ArcVar a b) = 1)
              \<and> (x (ArcVar b a) = 0 \<or> x (ArcVar b a) = 1)) edges"
  by (induction edges) (auto simp add: edge_vars_def)

lemma in_domain_node_vars:
  "list_all (in_domain x) (node_vars (nodes_of n)) \<Longrightarrow>
   list_all (\<lambda>i. x (NodeVar (Idx i)) = 0 \<or> x (NodeVar (Idx i)) = 1) [0..<n]"
  by (simp add: node_vars_def nodes_of_def list_all_iff del: str_nat.simps str_node.simps)

lemma feasible_cardinality:
  assumes "feasible (encode edges n k mip_gap time_limit) x"
  shows "int (length (filter (\<lambda>i. x (NodeVar (Idx i)) > 0.5) [0..<n])) = k - 1"
    and "int (length (filter (selected x) edges)) = k - 1"
proof -
  have dom: "list_all (in_domain x) (concat (map (edge_vars k) edges))"
      "list_all (in_domain x) (node_vars (nodes_of n))"
    using assms by (simp_all add: feasible_def encode_def Let_def)
  have cons: "list_all (holds x) (constraints (encode edges n k mip_gap time_limit))"
    using assms by (simp add: feasible_def)
  have one: "list_all (\<lambda>(n1, n2, _). x (ArcVar n1 n2) + x (ArcVar n2 n1) \<le> 1) edges"
    and kn: "sum_list (map (\<lambda>i. x (NodeVar (Idx i))) [0..<n]) = of_int (k - 1)"
    and ke: "sum_list (map (\<lambda>(a, b). x (ArcVar a b)) (arc_keys edges)) = of_int (k - 1)"
    using cons unfolding constraints_encode
    by (simp_all add: holds_edge_constrs comp_def case_prod_unfold)
  have "real (length (filter (\<lambda>i. x (NodeVar (Idx i)) > 0.5) [0..<n])) = of_int (k - 1)"
    using binary_sum_count [OF in_domain_node_vars [OF dom(2)]] kn by simp
  then show "int (length (filter (\<lambda>i. x (NodeVar (Idx i)) > 0.5) [0..<n])) = k - 1"
    by linarith
  have "list_all (\<lambda>(a, b, w). (x (ArcVar a b) = 0 \<or> x (ArcVar a b) = 1)
              \<and> (x (ArcVar b a) = 0 \<or> x (ArcVar b a) = 1)
              \<and> x (ArcVar a b) + x (ArcVar b a) \<le> 1) edges"
    using in_domain_edge_vars [OF dom(1)] one by (auto simp add: list_all_iff)
  from selected_sum_count [OF this] arc_sum_edges [of x edges] ke
  have "real (length (filter (selected x) edges)) = of_int (k - 1)" by simp
  then show "int (length (filter (selected x) edges)) = k - 1"
    by linarith
qed

lemma decode_solution:
  assumes "pruned_edges np coords c_coords = Inr edges" and "SolCount a \<noteq> 0"
  shows "decode a n edges =
     (C # map Idx (filter (\<lambda>i. X a (NodeVar (Idx i)) > 0.5) [0..<n]),
      filter (selected (X a)) edges)"
  using select_edges_filter [OF pruned_edges_Inr_unordered [OF assms(1)], of "{}" "X a" "[]"] assms(2)
  by (simp add: decode_def)

lemma decode_cardinality:
  assumes "pruned_edges np coords c_coords = Inr edges" and "SolCount a \<noteq> 0"
    and "feasible (encode edges n k mip_gap time_limit) (X a)"
  shows "\<exists>nodes es. decode a n edges = (C # nodes, es) \<and> C \<notin> set nodes
           \<and> int (length nodes) = k - 1 \<and> int (length es) = k - 1"
  using feasible_cardinality [OF assms(3)] by (auto simp add: decode_solution [OF assms(1,2)])

lemma optimized_singleton:
  assumes "optimized (milp_kmst np optimize coords c_coords k mip_gap time_limit) = [m]"
  shows "0 < length coords \<and> length coords \<le> 1500
       \<and> (\<exists>edges. pruned_edges np coords c_coords = Inr edges
             \<and> m = encode edges (length coords) (clamp_k (length coords) k) mip_gap time_limit
             \<and> returned (milp_kmst np optimize coords c_coords k mip_gap time_limit)
                 = Inr (decode (optimize m) (length coords) edges))"
proof -
  have "\<not> (length coords = 0 \<or> 1500 < length coords)"
  proof
    assume a: "length coords = 0 \<or> 1500 < length coords"
    from milp_kmst_rejected(1) [OF a, of np optimize c_coords k mip_gap time_limit] assms
    show False by simp
  qed
  then have acc: "0 < length coords" "length coords \<le> 1500"
    by (simp_all add: not_less)
  show ?thesis
    using assms acc unfolding milp_kmst_accepted [OF acc]
    by (cases "pruned_edges np coords c_coords") auto
qed

section \<open>A request for the root alone\<close>

text \<open>
  Claim C8, as amended. With k = 1, whenever the solver is called (which takes 1 to 1500
  candidates whose distances can be computed) and it reports no solution or returns an
  assignment that satisfies the model, the call returns the root alone and no edge. With
  no candidate, or more than 1500, the call returns the pair of empty lists instead, so
  the result does depend on the candidate list.
\<close>

theorem milp_kmst_k_one:
  assumes "optimized (milp_kmst np optimize coords c_coords 1 mip_gap time_limit) = [m]"
    and "SolCount (optimize m) = 0 \<or> feasible m (X (optimize m))"
  shows "returned (milp_kmst np optimize coords c_coords 1 mip_gap time_limit) = Inr ([C], [])"
proof -
  from optimized_singleton [OF assms(1)] obtain edges where
    acc: "0 < length coords"
    and e: "pruned_edges np coords c_coords = Inr edges"
    and m: "m = encode edges (length coords) (clamp_k (length coords) 1) mip_gap time_limit"
    and r: "returned (milp_kmst np optimize coords c_coords 1 mip_gap time_limit)
              = Inr (decode (optimize m) (length coords) edges)"
    by blast
  from acc have ck: "clamp_k (length coords) 1 = 1" by (simp add: clamp_k_def)
  show ?thesis
  proof (cases "SolCount (optimize m) = 0")
    case True
    then show ?thesis unfolding r by (simp add: decode_def)
  next
    case False
    with assms(2) have "feasible (encode edges (length coords) 1 mip_gap time_limit) (X (optimize m))"
      unfolding m ck by simp
    from decode_cardinality [OF e False this] show ?thesis unfolding r by auto
  qed
qed

lemma feasible_root_alone:
  "feasible (encode [(C, Idx 0, 10)] 1 1 0.01 300) (\<lambda>v. if v = NodeVar C then 1 else 0)"
  by (simp add: feasible_def encode_def Let_def edge_vars_def node_vars_def nodes_of_def root_def
      edge_constrs_def endpoint_constrs_def root_flow_def flow_cons_def arc_keys_def upt_rec)

theorem milp_kmst_k_one_witness:
  "optimized (milp_kmst exact (\<lambda>m. \<lparr> SolCount = 1, X = (\<lambda>v. if v = NodeVar C then 1 else 0) \<rparr>)
        [[10, 0]] [0, 0] 1 0.01 300)
     = [encode [(C, Idx 0, 10)] 1 1 0.01 300]
   \<and> feasible (encode [(C, Idx 0, 10)] 1 1 0.01 300) (\<lambda>v. if v = NodeVar C then 1 else 0)
   \<and> returned (milp_kmst exact (\<lambda>m. \<lparr> SolCount = 1, X = (\<lambda>v. if v = NodeVar C then 1 else 0) \<rparr>)
        [[10, 0]] [0, 0] 1 0.01 300)
     = Inr ([C], [])"
proof -
  let ?opt = "\<lambda>m :: model. \<lparr> SolCount = 1, X = (\<lambda>v. if v = NodeVar C then 1 else (0 :: real)) \<rparr>"
  have o: "optimized (milp_kmst exact ?opt [[10, 0]] [0, 0] 1 0.01 300)
     = [encode [(C, Idx 0, 10)] 1 1 0.01 300]"
    by (simp add: milp_kmst_def pruned_one clamp_k_def)
  have f: "SolCount (?opt (encode [(C, Idx 0, 10)] 1 1 0.01 300)) = 0
      \<or> feasible (encode [(C, Idx 0, 10)] 1 1 0.01 300) (X (?opt (encode [(C, Idx 0, 10)] 1 1 0.01 300)))"
    using feasible_root_alone by simp
  from milp_kmst_k_one [OF o f] o feasible_root_alone show ?thesis by simp
qed

theorem k_one_counterexample:
  "returned (milp_kmst exact (\<lambda>m. \<lparr> SolCount = 1, X = (\<lambda>v. if v = NodeVar C then 1 else 0) \<rparr>)
        [] [0, 0] 1 0.01 300) = Inr ([], [])
   \<and> returned (milp_kmst exact (\<lambda>m. \<lparr> SolCount = 1, X = (\<lambda>v. if v = NodeVar C then 1 else 0) \<rparr>)
        [] [0, 0] 1 0.01 300) \<noteq> Inr ([C], [])"
  by (simp add: milp_kmst_def)

section \<open>A request for more nodes than there are\<close>

text \<open>
  Claim C3, as the program behaves. When k exceeds the number of candidates (so already
  when k is the number of candidates plus one, the root included), the call prints the
  diagnostic and goes on with k set to the number of candidates, not to that number plus
  one: the model handed to the solver is the one for that value, and every solution the
  solver finds for it selects the root, all candidates but one, and as many edges as
  selected candidates. With 5 candidates and k = 10 the value used is 5, and the result
  has 4 nodes beyond the root and 4 edges.
\<close>

theorem clamp_to_candidate_count:
  assumes "0 < length coords" and "length coords \<le> 1500" and "int (length coords) < k"
    and "pruned_edges np coords c_coords = Inr edges"
    and "m = encode edges (length coords) (int (length coords)) mip_gap time_limit"
    and "SolCount (optimize m) \<noteq> 0" and "feasible m (X (optimize m))"
  shows "clamp_k (length coords) k = int (length coords)
     \<and> optimized (milp_kmst np optimize coords c_coords k mip_gap time_limit) = [m]
     \<and> printed (milp_kmst np optimize coords c_coords k mip_gap time_limit)
         = [msg_infeasible (length coords) k]
     \<and> (\<exists>nodes es. returned (milp_kmst np optimize coords c_coords k mip_gap time_limit)
             = Inr (C # nodes, es)
           \<and> C \<notin> set nodes
           \<and> length nodes = length coords - 1 \<and> length es = length coords - 1)"
proof -
  from assms(3) have ck: "clamp_k (length coords) k = int (length coords)"
    by (simp add: clamp_k_def)
  note out = milp_kmst_accepted [OF assms(1,2), of np optimize c_coords k mip_gap time_limit]
  have o: "optimized (milp_kmst np optimize coords c_coords k mip_gap time_limit) = [m]"
    unfolding out using assms(4,5) ck by simp
  have p: "printed (milp_kmst np optimize coords c_coords k mip_gap time_limit)
         = [msg_infeasible (length coords) k]"
    unfolding out using assms(3,4) by simp
  have r: "returned (milp_kmst np optimize coords c_coords k mip_gap time_limit)
         = Inr (decode (optimize m) (length coords) edges)"
    unfolding out using assms(4,5) ck by simp
  from assms(7) have f: "feasible (encode edges (length coords) (int (length coords)) mip_gap time_limit)
      (X (optimize m))"
    unfolding assms(5) .
  from decode_cardinality [OF assms(4,6) f] obtain nodes es where
    d: "decode (optimize m) (length coords) edges = (C # nodes, es)" "C \<notin> set nodes"
      "int (length nodes) = int (length coords) - 1" "int (length es) = int (length coords) - 1"
    by blast
  from d(3,4) assms(1) have "length nodes = length coords - 1" "length es = length coords - 1"
    by linarith+
  with ck o p r d(1,2) show ?thesis by simp
qed

lemma pruned_five:
  "pruned_edges exact [[1, 0], [-1, 0], [2, 0], [-2, 0], [3, 0]] [0, 0]
     = Inr [(C, Idx 0, 1), (C, Idx 1, 1), (C, Idx 2, 2), (C, Idx 3, 2), (C, Idx 4, 3),
            (Idx 0, Idx 2, 1), (Idx 0, Idx 4, 2), (Idx 1, Idx 3, 1), (Idx 2, Idx 4, 1)]"
  by (simp add: pruned_edges_def nodes_of_def node_positions_def distances_to_root_def
      distance_entry_def lookup_def root_def euclid_def np_sub_def np_hypot_def exact_def
      edge_step_def keep_edge_def upt_rec)

lemma feasible_five:
  "feasible (encode [(C, Idx 0, 1), (C, Idx 1, 1), (C, Idx 2, 2), (C, Idx 3, 2), (C, Idx 4, 3),
            (Idx 0, Idx 2, 1), (Idx 0, Idx 4, 2), (Idx 1, Idx 3, 1), (Idx 2, Idx 4, 1)] 5 5 0.01 300)
     (\<lambda>v. if v \<in> {NodeVar C, NodeVar (Idx 0), NodeVar (Idx 1), NodeVar (Idx 2), NodeVar (Idx 3),
                     ArcVar C (Idx 0), ArcVar C (Idx 1), ArcVar (Idx 0) (Idx 2), ArcVar (Idx 1) (Idx 3),
                     FlowVar (Idx 0) (Idx 2), FlowVar (Idx 1) (Idx 3)} then 1
            else if v \<in> {FlowVar C (Idx 0), FlowVar C (Idx 1)} then 2 else 0)"
  by (simp add: feasible_def encode_def Let_def edge_vars_def node_vars_def nodes_of_def root_def
      edge_constrs_def endpoint_constrs_def root_flow_def flow_cons_def arc_keys_def upt_rec)

theorem clamp_to_candidate_count_witness:
  "length [[1, 0], [-1, 0], [2, 0], [-2, 0], [3, 0 :: real]] = 5
   \<and> pruned_edges exact [[1, 0], [-1, 0], [2, 0], [-2, 0], [3, 0]] [0, 0]
       = Inr [(C, Idx 0, 1), (C, Idx 1, 1), (C, Idx 2, 2), (C, Idx 3, 2), (C, Idx 4, 3),
            (Idx 0, Idx 2, 1), (Idx 0, Idx 4, 2), (Idx 1, Idx 3, 1), (Idx 2, Idx 4, 1)]
   \<and> feasible (encode [(C, Idx 0, 1), (C, Idx 1, 1), (C, Idx 2, 2), (C, Idx 3, 2), (C, Idx 4, 3),
            (Idx 0, Idx 2, 1), (Idx 0, Idx 4, 2), (Idx 1, Idx 3, 1), (Idx 2, Idx 4, 1)] 5 5 0.01 300)
       (\<lambda>v. if v \<in> {NodeVar C, NodeVar (Idx 0), NodeVar (Idx 1), NodeVar (Idx 2), NodeVar (Idx 3),
                     ArcVar C (Idx 0), ArcVar C (Idx 1), ArcVar (Idx 0) (Idx 2), ArcVar (Idx 1) (Idx 3),
                     FlowVar (Idx 0) (Idx 2), FlowVar (Idx 1) (Idx 3)} then 1
            else if v \<in> {FlowVar C (Idx 0), FlowVar C (Idx 1)} then 2 else 0)
   \<and> clamp_k 5 10 = 5
   \<and> optimized (milp_kmst exact (\<lambda>m. \<lparr> SolCount = 1, X = (\<lambda>v. if v \<in> {NodeVar C, NodeVar (Idx 0), NodeVar (Idx 1), NodeVar (Idx 2), NodeVar (Idx 3),
                     ArcVar C (Idx 0), ArcVar C (Idx 1), ArcVar (Idx 0) (Idx 2), ArcVar (Idx 1) (Idx 3),
                     FlowVar (Idx 0) (Idx 2), FlowVar (Idx 1) (Idx 3)} then 1
            else if v \<in> {FlowVar C (Idx 0), FlowVar C (Idx 1)} then 2 else 0) \<rparr>)
        [[1, 0], [-1, 0], [2, 0], [-2, 0], [3, 0]] [0, 0] 10 0.01 300)
       = [encode [(C, Idx 0, 1), (C, Idx 1, 1), (C, Idx 2, 2), (C, Idx 3, 2), (C, Idx 4, 3),
            (Idx 0, Idx 2, 1), (Idx 0, Idx 4, 2), (Idx 1, Idx 3, 1), (Idx 2, Idx 4, 1)] 5 5 0.01 300]
   \<and> printed (milp_kmst exact (\<lambda>m. \<lparr> SolCount = 1, X = (\<lambda>v. if v \<in> {NodeVar C, NodeVar (Idx 0), NodeVar (Idx 1), NodeVar (Idx 2), NodeVar (Idx 3),
                     ArcVar C (Idx 0), ArcVar C (Idx 1), ArcVar (Idx 0) (Idx 2), ArcVar (Idx 1) (Idx 3),
                     FlowVar (Idx 0) (Idx 2), FlowVar (Idx 1) (Idx 3)} then 1
            else if v \<in> {FlowVar C (Idx 0), FlowVar C (Idx 1)} then 2 else 0) \<rparr>)
        [[1, 0], [-1, 0], [2, 0], [-2, 0], [3, 0]] [0, 0] 10 0.01 300)
       = [''This is not feasible, design for total 5 nodes instead of 10'']
   \<and> returned (milp_kmst exact (\<lambda>m. \<lparr> SolCount = 1, X = (\<lambda>v. if v \<in> {NodeVar C, NodeVar (Idx 0), NodeVar (Idx 1), NodeVar (Idx 2), NodeVar (Idx 3),
                     ArcVar C (Idx 0), ArcVar C (Idx 1), ArcVar (Idx 0) (Idx 2), ArcVar (Idx 1) (Idx 3),
                     FlowVar (Idx 0) (Idx 2), FlowVar (Idx 1) (Idx 3)} then 1
            else if v \<in> {FlowVar C (Idx 0), FlowVar C (Idx 1)} then 2 else 0) \<rparr>)
        [[1, 0], [-1, 0], [2, 0], [-2, 0], [3, 0]] [0, 0] 10 0.01 300)
       = Inr ([C, Idx 0, Idx 1, Idx 2, Idx 3],
              [(C, Idx 0, 1), (C, Idx 1, 1), (Idx 0, Idx 2, 1), (Idx 1, Idx 3, 1)])"
proof -
  let ?coords = "[[1, 0], [-1, 0], [2, 0], [-2, 0], [3, 0 :: real]]"
  let ?edges = "[(C, Idx 0, 1), (C, Idx 1, 1), (C, Idx 2, 2), (C, Idx 3, 2), (C, Idx 4, 3),
            (Idx 0, Idx 2, 1), (Idx 0, Idx 4, 2), (Idx 1, Idx 3, 1), (Idx 2, Idx 4, 1)]"
  let ?x = "(\<lambda>v. if v \<in> {NodeVar C, NodeVar (Idx 0), NodeVar (Idx 1), NodeVar (Idx 2), NodeVar (Idx 3),
                     ArcVar C (Idx 0), ArcVar C (Idx 1), ArcVar (Idx 0) (Idx 2), ArcVar (Idx 1) (Idx 3),
                     FlowVar (Idx 0) (Idx 2), FlowVar (Idx 1) (Idx 3)} then 1
            else if v \<in> {FlowVar C (Idx 0), FlowVar C (Idx 1)} then 2 else 0)"
  let ?opt = "\<lambda>m :: model. \<lparr> SolCount = 1, X = ?x \<rparr>"
  let ?m = "encode ?edges 5 5 0.01 300"
  have len: "length ?coords = 5" by simp
  have h: "0 < length ?coords" "length ?coords \<le> 1500" "int (length ?coords) < 10"
    "?m = encode ?edges (length ?coords) (int (length ?coords)) 0.01 300"
    unfolding len by simp_all
  have s: "SolCount (?opt ?m) \<noteq> 0" by simp
  have f: "feasible ?m (X (?opt ?m))" using feasible_five by simp
  have msg: "msg_infeasible 5 10 = ''This is not feasible, design for total 5 nodes instead of 10''"
    by (simp add: msg_infeasible_def str_int_def digit_char_def)
  have r: "returned (milp_kmst exact ?opt ?coords [0, 0] 10 0.01 300)
       = Inr ([C, Idx 0, Idx 1, Idx 2, Idx 3],
              [(C, Idx 0, 1), (C, Idx 1, 1), (Idx 0, Idx 2, 1), (Idx 1, Idx 3, 1)])"
    by (simp add: milp_kmst_def pruned_five decode_solution [OF pruned_five, simplified]
        selected_def upt_rec)
  from clamp_to_candidate_count [of ?coords 10 exact "[0, 0]" ?edges ?m "0.01" 300 ?opt,
      OF h(1,2,3) pruned_five h(4) s f]
  have "clamp_k (length ?coords) 10 = int (length ?coords)"
    and "optimized (milp_kmst exact ?opt ?coords [0, 0] 10 0.01 300) = [?m]"
    and "printed (milp_kmst exact ?opt ?coords [0, 0] 10 0.01 300)
         = [msg_infeasible (length ?coords) 10]"
    by blast+
  then have "clamp_k 5 10 = 5"
    and "optimized (milp_kmst exact ?opt ?coords [0, 0] 10 0.01 300) = [?m]"
    and "printed (milp_kmst exact ?opt ?coords [0, 0] 10 0.01 300)
         = [''This is not feasible, design for total 5 nodes instead of 10'']"
    unfolding len msg by simp_all
  with len pruned_five feasible_five r show ?thesis by blast
qed

end
